theory Spec2Isabelle
  imports Main "HOL-Library.Word" "HOL-Library.AList"
begin

section \<open>Data model of ecpps.h\<close>

text \<open>
  \<^verbatim>\<open>typedef unsigned ID;\<close> Entity IDs and the slot numbers kept in
  \<^verbatim>\<open>map<ID, unsigned> indexes\<close> are C++ \<^verbatim>\<open>unsigned\<close> values: 32-bit words,
  whose arithmetic wraps around.
\<close>

type_synonym ID = "32 word"

text \<open>
  The failures the code can produce. \<^verbatim>\<open>std::map::at\<close> and \<^verbatim>\<open>std::vector::at\<close>
  throw \<^verbatim>\<open>std::out_of_range\<close>; it is the only exception the library raises and
  plays the role of the specification's \<open>NotFound\<close>. The code has nothing that
  corresponds to \<open>DoubleInsert\<close> or \<open>InvalidType\<close>. \<^verbatim>\<open>vector::erase\<close> at a position
  that is not an element of the vector is undefined behaviour; the model makes
  it a result of its own.

  An operation of the model takes the state and returns its result together
  with the state it leaves behind: an exception does not roll back what was
  written before it was thrown.
\<close>

datatype error = OutOfRange | UndefinedBehaviour

text \<open>
  \<^verbatim>\<open>template <typename T> class ComponentVector\<close>: the sparse index
  \<^verbatim>\<open>map<ID, unsigned> indexes\<close> and the dense array \<^verbatim>\<open>vector<T> components\<close>.
  The type variable \<open>'c\<close> stands for the component values.
\<close>

record 'c ComponentVector =
  indexes :: "ID \<rightharpoonup> 32 word"
  components :: "'c list"

definition ComponentVector_empty :: "'c ComponentVector" where
  "ComponentVector_empty = \<lparr>indexes = Map.empty, components = []\<rparr>"

text \<open>
  \<^verbatim>\<open>std::map::insert({k, v})\<close> stores the pair only when the key is not
  present yet; an existing entry is kept as it is.
\<close>

definition std_map_insert :: "'k \<Rightarrow> 'v \<Rightarrow> ('k \<rightharpoonup> 'v) \<Rightarrow> ('k \<rightharpoonup> 'v)" where
  "std_map_insert k v m = (case m k of None \<Rightarrow> m(k \<mapsto> v) | Some _ \<Rightarrow> m)"

section \<open>ComponentVector\<close>

text \<open>
  \<^verbatim>\<open>ComponentVector<T>::addComponent(ID entityID, T component)\<close>. The slot is the
  size of the dense array, converted from \<^verbatim>\<open>size_t\<close> to \<^verbatim>\<open>unsigned\<close>; then
  \<^verbatim>\<open>indexes.insert\<close> and \<^verbatim>\<open>components.emplace_back\<close>. The function returns
  nothing and has no failing branch. (The lines written to \<^verbatim>\<open>std::cout\<close> are
  left out throughout.)
\<close>

definition ComponentVector_addComponent ::
  "ID \<Rightarrow> 'c \<Rightarrow> 'c ComponentVector \<Rightarrow> (error + unit) \<times> 'c ComponentVector" where
  "ComponentVector_addComponent entityID component cv =
     (let index = (if components cv = [] then 0 else word_of_nat (length (components cv)))
      in (Inr (),
          \<lparr>indexes = std_map_insert entityID index (indexes cv),
           components = components cv @ [component]\<rparr>))"

text \<open>
  \<^verbatim>\<open>ComponentVector<T>::removeEntity(ID entityID)\<close>: \<^verbatim>\<open>indexes.at(entityID)\<close>
  throws for an absent entity, before anything is written. Otherwise the entry
  is erased, the dense element at the slot is erased (the later elements move
  down by one), and the loop over the remaining entries lowers by one every
  slot above the erased one.
\<close>

definition ComponentVector_removeEntity ::
  "ID \<Rightarrow> 'c ComponentVector \<Rightarrow> (error + unit) \<times> 'c ComponentVector" where
  "ComponentVector_removeEntity entityID cv =
     (case indexes cv entityID of
        None \<Rightarrow> (Inl OutOfRange, cv)
      | Some index \<Rightarrow>
          (let erased = (indexes cv)(entityID := None) in
           if unat index < length (components cv)
           then (Inr (),
                 \<lparr>indexes = (\<lambda>key. map_option (\<lambda>v. if v > index then v - 1 else v) (erased key)),
                  components = take (unat index) (components cv)
                                 @ drop (Suc (unat index)) (components cv)\<rparr>)
           else (Inl UndefinedBehaviour, cv\<lparr>indexes := erased\<rparr>)))"

text \<open>
  \<^verbatim>\<open>ComponentVector<T>::getComponentAt(ID entityID)\<close>: \<^verbatim>\<open>indexes[entityID]\<close> is
  \<^verbatim>\<open>std::map::operator[]\<close>, which inserts the key with the value 0 when it is
  absent and returns the stored slot; \<^verbatim>\<open>components.at(index)\<close> throws when the
  slot is not a position of the dense array.
\<close>

definition ComponentVector_getComponentAt ::
  "ID \<Rightarrow> 'c ComponentVector \<Rightarrow> (error + 'c) \<times> 'c ComponentVector" where
  "ComponentVector_getComponentAt entityID cv =
     (let cv' = cv\<lparr>indexes := std_map_insert entityID 0 (indexes cv)\<rparr>;
          index = (case indexes cv entityID of None \<Rightarrow> 0 | Some i \<Rightarrow> i)
      in if unat index < length (components cv)
         then (Inr (components cv ! unat index), cv')
         else (Inl OutOfRange, cv'))"

text \<open>
  The ComponentStore invariant of the data model: every slot of the sparse
  index is a position of the dense array, and no two entities share a slot.
\<close>

definition wf_store :: "'c ComponentVector \<Rightarrow> bool" where
  "wf_store cv \<longleftrightarrow>
     (\<forall>e s. indexes cv e = Some s \<longrightarrow> unat s < length (components cv)) \<and>
     (\<forall>e1 e2 s. indexes cv e1 = Some s \<longrightarrow> indexes cv e2 = Some s \<longrightarrow> e1 = e2)"

section \<open>ComponentManager\<close>

text \<open>
  \<^verbatim>\<open>map<const char*, std::shared_ptr<IComponentVector>> componentVectors\<close>: one
  store per component type, keyed by the pointer \<^verbatim>\<open>typeid(T).name()\<close>. The map
  is iterated in key order, and the order decides which stores a broadcast
  has reached when it is interrupted, so the map is an association list kept in
  key order; a key is the address as a number. All stores share the value type
  \<open>'c\<close>.
\<close>

type_synonym typekey = nat

record 'c ComponentManager =
  componentVectors :: "(typekey \<times> 'c ComponentVector) list"

text \<open>
  \<^verbatim>\<open>ComponentManager::getComponentVector<T>()\<close>: creates the store for the key
  when \<^verbatim>\<open>find\<close> does not see it, then returns \<^verbatim>\<open>componentVectors.at(typekey)\<close>.
\<close>

definition ComponentManager_getComponentVector ::
  "typekey \<Rightarrow> 'c ComponentManager \<Rightarrow> (error + 'c ComponentVector) \<times> 'c ComponentManager" where
  "ComponentManager_getComponentVector tk cm =
     (let cm' = (if map_of (componentVectors cm) tk = None
                 then cm\<lparr>componentVectors :=
                           insort_key fst (tk, ComponentVector_empty) (componentVectors cm)\<rparr>
                 else cm)
      in case map_of (componentVectors cm') tk of
           None \<Rightarrow> (Inl OutOfRange, cm')
         | Some cv \<Rightarrow> (Inr cv, cm'))"

text \<open>
  \<^verbatim>\<open>ComponentManager::addComponent<T>(ID entityID, T component)\<close>:
  \<^verbatim>\<open>getComponentVector<T>()->addComponent(entityID, component)\<close>. The call goes
  through the shared pointer, so the store inside the map is the one written.
\<close>

definition ComponentManager_addComponent ::
  "typekey \<Rightarrow> ID \<Rightarrow> 'c \<Rightarrow> 'c ComponentManager \<Rightarrow> (error + unit) \<times> 'c ComponentManager" where
  "ComponentManager_addComponent tk entityID component cm =
     (case ComponentManager_getComponentVector tk cm of
        (Inl e, cm') \<Rightarrow> (Inl e, cm')
      | (Inr cv, cm') \<Rightarrow>
          (case ComponentVector_addComponent entityID component cv of
             (r, cv') \<Rightarrow>
               (r, cm'\<lparr>componentVectors := AList.update tk cv' (componentVectors cm')\<rparr>)))"

text \<open>
  \<^verbatim>\<open>ComponentManager::removeEntity(ID entityID)\<close>: the range-for over
  \<^verbatim>\<open>componentVectors\<close> calls \<^verbatim>\<open>removeEntity\<close> on each store in turn. There is
  no handler around the call: the first store whose call fails ends the loop,
  the stores before it stay modified and the stores after it are not visited.
\<close>

fun removeEntity_loop ::
  "ID \<Rightarrow> (typekey \<times> 'c ComponentVector) list
     \<Rightarrow> (error + unit) \<times> (typekey \<times> 'c ComponentVector) list" where
  "removeEntity_loop entityID [] = (Inr (), [])"
| "removeEntity_loop entityID ((key, component) # rest) =
     (case ComponentVector_removeEntity entityID component of
        (Inl e, component') \<Rightarrow> (Inl e, (key, component') # rest)
      | (Inr u, component') \<Rightarrow>
          (case removeEntity_loop entityID rest of
             (r, rest') \<Rightarrow> (r, (key, component') # rest')))"

definition ComponentManager_removeEntity ::
  "ID \<Rightarrow> 'c ComponentManager \<Rightarrow> (error + unit) \<times> 'c ComponentManager" where
  "ComponentManager_removeEntity entityID cm =
     (case removeEntity_loop entityID (componentVectors cm) of
        (r, cvs') \<Rightarrow> (r, cm\<lparr>componentVectors := cvs'\<rparr>))"

section \<open>ECSManager\<close>

text \<open>
  \<^verbatim>\<open>class Entity\<close> holds its ID and a reference to the manager that owns it;
  the reference is always that manager and is left out.
\<close>

datatype Entity = Entity (Entity_entityID: ID)

text \<open>
  The classes of the system hierarchy: the two base classes of the library and
  the classes an application derives from them, told apart by a number.
  \<^verbatim>\<open>vector<System> systems\<close> and \<^verbatim>\<open>vector<RenderSystem> rsystems\<close> store their
  elements by value, so an element of \<open>systems\<close> is an object of class
  \<open>System\<close> itself and an element of \<open>rsystems\<close> an object of class
  \<open>RenderSystem\<close> itself: \<^verbatim>\<open>emplace_back(system)\<close> copy-constructs the base
  class from the argument. The hooks \<^verbatim>\<open>init\<close>, \<^verbatim>\<open>update\<close> and \<^verbatim>\<open>render\<close> of
  the two base classes have empty bodies; the hooks of a derived class are
  application code. The model numbers the instances of \<open>T\<close> that
  \<^verbatim>\<open>registerSystem<T>\<close> constructs (\<^verbatim>\<open>T rsystem\<close>, \<^verbatim>\<open>T system\<close>) in the order
  of their construction, and names an element of a vector by the instance it
  is a copy of. The trace records the construction of every instance and
  every hook call, with the object the call runs on and the class of that
  object. The copies and moves the vectors make of their elements (the copy
  \<^verbatim>\<open>emplace_back\<close> constructs, and the relocation of the stored elements when
  a vector grows) are not recorded: a relocated element is still the copy of
  the same instance.
\<close>

datatype sysclass = SystemClass | RenderSystemClass | DerivedClass nat

datatype receiver = Instance nat | CopyOf nat

datatype event =
    Construct nat sysclass
  | Call_init receiver sysclass
  | Call_update receiver sysclass
  | Call_render receiver sysclass

text \<open>
  The template argument of \<^verbatim>\<open>registerSystem<T>\<close>: the class and the two
  \<^verbatim>\<open>is_base_of\<close> tests the function makes on it. The template argument of
  \<^verbatim>\<open>addComponent<T>\<close>: the key \<^verbatim>\<open>typeid(T).name()\<close> and the test
  \<^verbatim>\<open>is_base_of<Component,T>\<close>.
\<close>

record systype =
  sys_class :: nat
  derives_System :: bool
  derives_RenderSystem :: bool

record comptype =
  type_name :: typekey
  derives_Component :: bool

text \<open>
  \<^verbatim>\<open>class ECSManager\<close>. The field \<^verbatim>\<open>components\<close> is \<open>manager_components\<close>
  here, since the dense array of a store has the same name. \<open>objects\<close>, the
  number of instances constructed so far, and \<open>trace\<close> are the bookkeeping
  of the system objects described above.
\<close>

record 'c ECSManager =
  systems :: "nat list"
  rsystems :: "nat list"
  manager_components :: "'c ComponentManager"
  entities :: "ID \<rightharpoonup> Entity"
  nextID :: ID
  reusableIDs :: "ID list"
  objects :: nat
  trace :: "event list"

definition ECSManager_new :: "'c ECSManager" where
  "ECSManager_new =
     \<lparr>systems = [], rsystems = [], manager_components = \<lparr>componentVectors = []\<rparr>,
      entities = Map.empty, nextID = 0, reusableIDs = [], objects = 0, trace = []\<rparr>"

text \<open>\<^verbatim>\<open>ECSManager::generateEntityID()\<close>; \<^verbatim>\<open>nextID++\<close> is 32-bit addition.\<close>

definition generateEntityID :: "'c ECSManager \<Rightarrow> ID \<times> 'c ECSManager" where
  "generateEntityID m =
     (if length (reusableIDs m) \<noteq> 0
      then (last (reusableIDs m), m\<lparr>reusableIDs := butlast (reusableIDs m)\<rparr>)
      else (nextID m, m\<lparr>nextID := nextID m + 1\<rparr>))"

text \<open>
  \<^verbatim>\<open>ECSManager::createEntity()\<close>: \<^verbatim>\<open>entities.insert\<close> keeps an entry that is
  already there; the result is \<^verbatim>\<open>entities.at(newID)\<close>.
\<close>

definition createEntity :: "'c ECSManager \<Rightarrow> (error + Entity) \<times> 'c ECSManager" where
  "createEntity m =
     (case generateEntityID m of
        (newID, m1) \<Rightarrow>
          (let newEntity = Entity newID;
               m2 = m1\<lparr>entities := std_map_insert newID newEntity (entities m1)\<rparr>
           in case entities m2 newID of
                None \<Rightarrow> (Inl OutOfRange, m2)
              | Some e \<Rightarrow> (Inr e, m2)))"

text \<open>
  \<^verbatim>\<open>ECSManager::destroyEntity(ID entityID)\<close>: \<^verbatim>\<open>entities.at(entityID)\<close> throws
  for an ID that is not live. Then the broadcast to the stores, the erasure
  from \<open>entities\<close> and the push onto \<open>reusableIDs\<close>, in this order; an
  exception of the broadcast leaves the last two undone.
\<close>

definition destroyEntity :: "ID \<Rightarrow> 'c ECSManager \<Rightarrow> (error + unit) \<times> 'c ECSManager" where
  "destroyEntity entityID m =
     (case entities m entityID of
        None \<Rightarrow> (Inl OutOfRange, m)
      | Some toDestroy \<Rightarrow>
          (case ComponentManager_removeEntity entityID (manager_components m) of
             (Inl e, cm') \<Rightarrow> (Inl e, m\<lparr>manager_components := cm'\<rparr>)
           | (Inr u, cm') \<Rightarrow>
               (Inr (), m\<lparr>manager_components := cm',
                          entities := (entities m)(entityID := None),
                          reusableIDs := reusableIDs m @ [entityID]\<rparr>)))"

text \<open>
  \<^verbatim>\<open>ECSManager::addComponent<T>(ID entityID, T component)\<close>: the only test is
  \<^verbatim>\<open>is_base_of<Component,T>\<close>; when it fails the function does nothing and
  returns normally.
\<close>

definition ECSManager_addComponent ::
  "comptype \<Rightarrow> ID \<Rightarrow> 'c \<Rightarrow> 'c ECSManager \<Rightarrow> (error + unit) \<times> 'c ECSManager" where
  "ECSManager_addComponent T entityID component m =
     (if derives_Component T
      then (case ComponentManager_addComponent (type_name T) entityID component
                   (manager_components m) of
              (r, cm') \<Rightarrow> (r, m\<lparr>manager_components := cm'\<rparr>))
      else (Inr (), m))"

text \<open>
  \<^verbatim>\<open>ECSManager::registerSystem<T>()\<close>. Inside the test for \<open>System\<close>, the
  branch for a \<open>RenderSystem\<close> constructs \<^verbatim>\<open>T rsystem\<close> and appends a copy of
  it to \<open>rsystems\<close>; it has no \<^verbatim>\<open>else\<close>, so the statements after it run for
  every system: \<^verbatim>\<open>T system\<close> is constructed, a copy of it is appended to
  \<open>systems\<close>, and \<^verbatim>\<open>system.init()\<close> runs on the local object. An element
  of \<open>rsystems\<close> or \<open>systems\<close> is written as the number of the instance it
  was copied from.
\<close>

definition registerSystem :: "systype \<Rightarrow> 'c ECSManager \<Rightarrow> 'c ECSManager" where
  "registerSystem T m =
     (if derives_System T then
        (let m1 = (if derives_RenderSystem T then
                     (let rsystem = objects m
                      in m\<lparr>rsystems := rsystems m @ [rsystem],
                           objects := Suc (objects m),
                           trace := trace m @
                             [Construct rsystem (DerivedClass (sys_class T))]\<rparr>)
                   else m);
             system = objects m1
         in m1\<lparr>systems := systems m1 @ [system],
                objects := Suc (objects m1),
                trace := trace m1 @
                  [Construct system (DerivedClass (sys_class T)),
                   Call_init (Instance system) (DerivedClass (sys_class T))]\<rparr>)
      else m)"

text \<open>
  \<^verbatim>\<open>ECSManager::update()\<close> and \<^verbatim>\<open>ECSManager::render()\<close>: the hooks run on the
  stored elements, whose bodies are the empty ones of the base classes, so
  the calls leave the manager as it is but for the trace.
\<close>

definition ECSManager_update :: "'c ECSManager \<Rightarrow> 'c ECSManager" where
  "ECSManager_update m =
     m\<lparr>trace := trace m
          @ map (\<lambda>system. Call_update (CopyOf system) SystemClass) (systems m)
          @ map (\<lambda>rsystem. Call_update (CopyOf rsystem) RenderSystemClass) (rsystems m)\<rparr>"

definition ECSManager_render :: "'c ECSManager \<Rightarrow> 'c ECSManager" where
  "ECSManager_render m =
     m\<lparr>trace := trace m
          @ map (\<lambda>rsystem. Call_render (CopyOf rsystem) RenderSystemClass) (rsystems m)\<rparr>"

section \<open>Sequences of calls\<close>

text \<open>
  A caller's sequence of \<^verbatim>\<open>createEntity\<close> and \<^verbatim>\<open>destroyEntity\<close> calls. A call
  that throws leaves the manager as the exception found it, and the sequence
  goes on from there. \<open>fresh_ids\<close> holds when every \<^verbatim>\<open>createEntity\<close> of the
  sequence hands out an ID that no live entity has at that moment.
\<close>

datatype call = CreateEntity | DestroyEntity ID

fun run :: "call list \<Rightarrow> 'c ECSManager \<Rightarrow> 'c ECSManager" where
  "run [] m = m"
| "run (CreateEntity # cs) m = run cs (snd (createEntity m))"
| "run (DestroyEntity entityID # cs) m = run cs (snd (destroyEntity entityID m))"

fun fresh_ids :: "call list \<Rightarrow> 'c ECSManager \<Rightarrow> bool" where
  "fresh_ids [] m = True"
| "fresh_ids (CreateEntity # cs) m =
     (case createEntity m of
        (r, m') \<Rightarrow>
          (case r of Inl e \<Rightarrow> False | Inr e \<Rightarrow> entities m (Entity_entityID e) = None)
          \<and> fresh_ids cs m')"
| "fresh_ids (DestroyEntity entityID # cs) m = fresh_ids cs (snd (destroyEntity entityID m))"

text \<open>
  \<open>advances cs m\<close> counts how often the sequence \<open>cs\<close>, run from \<open>m\<close>,
  advances the counter: \<^verbatim>\<open>generateEntityID\<close> executes \<^verbatim>\<open>nextID++\<close> exactly
  in the \<^verbatim>\<open>createEntity\<close> calls that find the reuse pool empty.
\<close>

fun advances :: "call list \<Rightarrow> 'c ECSManager \<Rightarrow> nat" where
  "advances [] m = 0"
| "advances (CreateEntity # cs) m =
     (if length (reusableIDs m) \<noteq> 0 then 0 else 1) + advances cs (snd (createEntity m))"
| "advances (DestroyEntity entityID # cs) m = advances cs (snd (destroyEntity entityID m))"

text \<open>
  Invariants of the entity registry. \<open>entities_wf\<close>: the entity stored
  under a key carries that key as its ID (\<^verbatim>\<open>createEntity\<close> is the only writer
  of \<open>entities\<close> and inserts \<^verbatim>\<open>{newID, Entity(newID, this)}\<close>). \<open>ids_inv n\<close>: the
  counter has been advanced \<open>n\<close> times and has not passed \<open>2 ^ 32\<close>, the reuse
  pool has no repetition and holds no live ID, and every ID of the pool or of a
  live entity is one of the \<open>n\<close> values the counter has handed out.
  \<open>ids_all_held n\<close>: each of these \<open>n\<close> values is in the pool or live.
\<close>

definition ids_all_held :: "nat \<Rightarrow> 'c ECSManager \<Rightarrow> bool" where
  "ids_all_held n m \<longleftrightarrow>
     (\<forall>i. unat i < n \<longrightarrow> i \<in> set (reusableIDs m) \<or> entities m i \<noteq> None)"

definition entities_wf :: "'c ECSManager \<Rightarrow> bool" where
  "entities_wf m \<longleftrightarrow> (\<forall>k e. entities m k = Some e \<longrightarrow> Entity_entityID e = k)"

definition ids_inv :: "nat \<Rightarrow> 'c ECSManager \<Rightarrow> bool" where
  "ids_inv n m \<longleftrightarrow>
     nextID m = word_of_nat n \<and> n \<le> 2 ^ 32 \<and> distinct (reusableIDs m) \<and>
     (\<forall>i \<in> set (reusableIDs m). entities m i = None) \<and>
     (\<forall>i. i \<in> set (reusableIDs m) \<or> entities m i \<noteq> None \<longrightarrow> unat i < n)"

section \<open>Properties of a component store\<close>

subsection \<open>Lookup of an absent entity\<close>

lemma getComponentAt_absent:
  assumes "indexes cv entityID = None"
  shows "ComponentVector_getComponentAt entityID cv =
           (if components cv \<noteq> [] then Inr (components cv ! 0) else Inl OutOfRange,
            cv\<lparr>indexes := (indexes cv)(entityID \<mapsto> 0)\<rparr>)"
  using assms
  by (simp add: ComponentVector_getComponentAt_def std_map_insert_def Let_def)

text \<open>
  C10. For an entity that holds no component in the store, \<open>getComponentAt\<close>
  is not a pure read: the store it leaves behind differs from the one it was
  given by the new sparse entry that maps the entity to slot 0, and the call
  returns the dense element at position 0 whenever the dense array is not
  empty (it throws \<open>out_of_range\<close> only when the array is empty, and has
  written the entry by then).
\<close>

theorem getComponentAt_absent_inserts_slot_0:
  assumes "indexes cv entityID = None"
  shows "ComponentVector_getComponentAt entityID cv =
           (if components cv \<noteq> [] then Inr (components cv ! 0) else Inl OutOfRange,
            cv\<lparr>indexes := (indexes cv)(entityID \<mapsto> 0)\<rparr>)
         \<and> indexes (snd (ComponentVector_getComponentAt entityID cv)) entityID = Some 0
         \<and> snd (ComponentVector_getComponentAt entityID cv) \<noteq> cv"
proof -
  have "indexes (cv\<lparr>indexes := (indexes cv)(entityID \<mapsto> 0)\<rparr>) entityID \<noteq> indexes cv entityID"
    using assms by simp
  then have "cv\<lparr>indexes := (indexes cv)(entityID \<mapsto> 0)\<rparr> \<noteq> cv"
    by metis
  then show ?thesis
    by (simp add: getComponentAt_absent[OF assms])
qed

theorem getComponentAt_absent_inserts_slot_0_witness:
  "indexes \<lparr>indexes = [0 \<mapsto> 0], components = [7::nat]\<rparr> 1 = None
   \<and> ComponentVector_getComponentAt 1 \<lparr>indexes = [0 \<mapsto> 0], components = [7::nat]\<rparr>
       = (Inr 7, \<lparr>indexes = [0 \<mapsto> 0, 1 \<mapsto> 0], components = [7]\<rparr>)"
  using getComponentAt_absent_inserts_slot_0
          [of "\<lparr>indexes = [0 \<mapsto> 0], components = [7::nat]\<rparr>" 1]
  by simp

text \<open>
  C3. The claim asks that a lookup succeeds only for an entity whose last
  insert has not been followed by a remove, and fails with \<open>NotFound\<close>
  otherwise. On the code it does not: after a single insert for entity 0,
  the lookup of entity 1, which was never inserted, returns the component of
  entity 0 and leaves entity 1 registered at slot 0.
\<close>

theorem getComponentAt_never_inserted_succeeds:
  "indexes (snd (ComponentVector_addComponent 0 (7::nat) ComponentVector_empty)) 1 = None
   \<and> ComponentVector_getComponentAt 1
         (snd (ComponentVector_addComponent 0 (7::nat) ComponentVector_empty))
       = (Inr 7, \<lparr>indexes = [0 \<mapsto> 0, 1 \<mapsto> 0], components = [7]\<rparr>)"
  by (simp add: ComponentVector_getComponentAt_def ComponentVector_addComponent_def
      ComponentVector_empty_def std_map_insert_def Let_def)

subsection \<open>Removal\<close>

lemma slot_shift_unat:
  fixes i s :: "32 word"
  shows "unat (if i < s then s - 1 else s) = (if unat i < unat s then unat s - 1 else unat s)"
proof (cases "i < s")
  case True
  then have "s \<noteq> 0" by (auto simp: word_less_nat_alt)
  then have "unat (s - 1) = unat s - 1" by (rule unat_minus_one)
  with True show ?thesis by (simp add: word_less_nat_alt)
next
  case False
  then show ?thesis by (simp add: word_less_nat_alt)
qed

lemma nth_erase:
  assumes "i < length xs" "j < length xs" "j \<noteq> i"
  shows "(take i xs @ drop (Suc i) xs) ! (if i < j then j - 1 else j) = xs ! j"
  using assms by (auto simp: nth_append min_def)

lemma nth_erase_shift:
  assumes "i < length xs" "j < length xs - 1"
  shows "(take i xs @ drop (Suc i) xs) ! j = (if j < i then xs ! j else xs ! Suc j)"
  using assms by (auto simp: nth_append min_def)

lemma removeEntity_present:
  assumes "indexes cv entityID = Some i" "unat i < length (components cv)"
  shows "ComponentVector_removeEntity entityID cv =
     (Inr (),
      \<lparr>indexes = (\<lambda>key. map_option (\<lambda>v. if i < v then v - 1 else v)
                           (((indexes cv)(entityID := None)) key)),
       components = take (unat i) (components cv) @ drop (Suc (unat i)) (components cv)\<rparr>)"
  using assms by (simp add: ComponentVector_removeEntity_def Let_def)

lemma removeEntity_Inr_slot:
  assumes "indexes cv entityID = Some i" "ComponentVector_removeEntity entityID cv = (Inr u, cv')"
  shows "unat i < length (components cv)"
  using assms by (auto simp: ComponentVector_removeEntity_def Let_def split: if_splits)

lemma removeEntity_indexes:
  assumes "indexes cv entityID = Some i" "unat i < length (components cv)"
  shows "indexes (snd (ComponentVector_removeEntity entityID cv)) e =
          (if e = entityID then None
           else map_option (\<lambda>v. if i < v then v - 1 else v) (indexes cv e))"
  using assms by (simp add: removeEntity_present)

lemma removeEntity_wf:
  assumes wf: "wf_store cv" and at: "indexes cv entityID = Some i"
  shows "wf_store (snd (ComponentVector_removeEntity entityID cv))"
proof -
  let ?cv' = "snd (ComponentVector_removeEntity entityID cv)"
  let ?n = "length (components cv)"
  from wf at have i: "unat i < ?n" by (auto simp: wf_store_def)
  have len: "length (components ?cv') = ?n - 1"
    using i by (simp add: removeEntity_present[OF at i])
  have idx: "\<exists>s. indexes cv e = Some s \<and> s \<noteq> i \<and> s' = (if i < s then s - 1 else s)"
    if "indexes ?cv' e = Some s'" for e s'
  proof -
    from that have ne: "e \<noteq> entityID"
      and "map_option (\<lambda>v. if i < v then v - 1 else v) (indexes cv e) = Some s'"
      by (auto simp: removeEntity_indexes[OF at i] split: if_splits)
    then obtain s where s: "indexes cv e = Some s" "s' = (if i < s then s - 1 else s)"
      by auto
    from wf at s(1) ne have "s \<noteq> i" by (auto simp: wf_store_def)
    with s show ?thesis by blast
  qed
  have valid: "unat s' < length (components ?cv')" if "indexes ?cv' e = Some s'" for e s'
  proof -
    from idx[OF that] obtain s where
      s: "indexes cv e = Some s" "s \<noteq> i" "s' = (if i < s then s - 1 else s)" by blast
    from wf s(1) have "unat s < ?n" by (auto simp: wf_store_def)
    moreover from s(2) have "unat s \<noteq> unat i" by (simp add: word_unat_eq_iff)
    ultimately show ?thesis
      using i unfolding len s(3) slot_shift_unat by auto
  qed
  have inj: "e1 = e2" if a1: "indexes ?cv' e1 = Some s'" and a2: "indexes ?cv' e2 = Some s'"
    for e1 e2 s'
  proof -
    from idx[OF a1] obtain s1 where
      s1: "indexes cv e1 = Some s1" "s1 \<noteq> i" "s' = (if i < s1 then s1 - 1 else s1)" by blast
    from idx[OF a2] obtain s2 where
      s2: "indexes cv e2 = Some s2" "s2 \<noteq> i" "s' = (if i < s2 then s2 - 1 else s2)" by blast
    have "unat (if i < s1 then s1 - 1 else s1) = unat (if i < s2 then s2 - 1 else s2)"
      using s1(3) s2(3) by simp
    then have "(if unat i < unat s1 then unat s1 - 1 else unat s1)
             = (if unat i < unat s2 then unat s2 - 1 else unat s2)"
      unfolding slot_shift_unat .
    moreover from s1(2) have "unat s1 \<noteq> unat i" by (simp add: word_unat_eq_iff)
    moreover from s2(2) have "unat s2 \<noteq> unat i" by (simp add: word_unat_eq_iff)
    ultimately have "unat s1 = unat s2" by (auto split: if_splits)
    then have "s1 = s2" by (simp add: word_unat_eq_iff)
    with wf s1(1) s2(1) show ?thesis by (auto simp: wf_store_def)
  qed
  show ?thesis unfolding wf_store_def using valid inj by blast
qed

lemma removeEntity_value:
  assumes wf: "wf_store cv" and at: "indexes cv entityID = Some i"
    and e: "e \<noteq> entityID" "indexes cv e = Some s"
  shows "components (snd (ComponentVector_removeEntity entityID cv))
           ! unat (if i < s then s - 1 else s) = components cv ! unat s"
proof -
  from wf at have i: "unat i < length (components cv)" by (auto simp: wf_store_def)
  from wf e have s: "unat s < length (components cv)" by (auto simp: wf_store_def)
  from wf at e have "s \<noteq> i" by (auto simp: wf_store_def)
  then have ne: "unat s \<noteq> unat i" by (simp add: word_unat_eq_iff)
  show ?thesis
    unfolding slot_shift_unat using nth_erase[OF i s ne]
    by (simp add: removeEntity_present[OF at i])
qed

text \<open>
  What a removal does. Let the store hold \<open>entityID\<close> at slot \<open>i\<close>. Whenever
  \<open>removeEntity\<close> returns normally, the dense array has lost exactly the
  element at position \<open>i\<close> and every later element has moved down by one,
  the sparse entry of \<open>entityID\<close> is gone, and every other sparse entry is
  lowered by one when its slot was above \<open>i\<close> and kept otherwise. On a store
  that satisfies the ComponentStore invariant the removal does return normally,
  the store afterwards maps exactly the surviving entities, each surviving
  entity finds at its new slot the value it had before, and the invariant
  holds again.
\<close>

lemma removeEntity_on_wf_store:
  assumes at: "indexes cv entityID = Some i"
  shows "(\<forall>cv'. ComponentVector_removeEntity entityID cv = (Inr (), cv') \<longrightarrow>
            components cv' = take (unat i) (components cv) @ drop (Suc (unat i)) (components cv)
          \<and> length (components cv') = length (components cv) - 1
          \<and> (\<forall>j < length (components cv').
                components cv' ! j = (if j < unat i then components cv ! j
                                      else components cv ! Suc j))
          \<and> indexes cv' entityID = None
          \<and> (\<forall>e s. e \<noteq> entityID \<and> indexes cv e = Some s \<longrightarrow>
                indexes cv' e = Some (if i < s then s - 1 else s)))
       \<and> (wf_store cv \<longrightarrow>
            (\<exists>cv'. ComponentVector_removeEntity entityID cv = (Inr (), cv')
              \<and> dom (indexes cv') = dom (indexes cv) - {entityID}
              \<and> (\<forall>e s. e \<noteq> entityID \<and> indexes cv e = Some s \<longrightarrow>
                    (\<exists>s'. indexes cv' e = Some s'
                        \<and> unat s' = (if unat i < unat s then unat s - 1 else unat s)
                        \<and> unat s' < length (components cv')
                        \<and> components cv' ! unat s' = components cv ! unat s))
              \<and> wf_store cv'))"
proof -
  have mech: "components cv' = take (unat i) (components cv) @ drop (Suc (unat i)) (components cv)
          \<and> length (components cv') = length (components cv) - 1
          \<and> (\<forall>j < length (components cv').
                components cv' ! j = (if j < unat i then components cv ! j
                                      else components cv ! Suc j))
          \<and> indexes cv' entityID = None
          \<and> (\<forall>e s. e \<noteq> entityID \<and> indexes cv e = Some s \<longrightarrow>
                indexes cv' e = Some (if i < s then s - 1 else s))"
    if r: "ComponentVector_removeEntity entityID cv = (Inr (), cv')" for cv'
  proof -
    from removeEntity_Inr_slot[OF at r] have i: "unat i < length (components cv)" .
    from r have cv': "cv' = snd (ComponentVector_removeEntity entityID cv)" by simp
    have c: "components cv'
               = take (unat i) (components cv) @ drop (Suc (unat i)) (components cv)"
      unfolding cv' by (simp add: removeEntity_present[OF at i])
    have len: "length (components cv') = length (components cv) - 1"
      unfolding c using i by simp
    have shift: "\<forall>j < length (components cv').
          components cv' ! j = (if j < unat i then components cv ! j else components cv ! Suc j)"
      unfolding len unfolding c using nth_erase_shift[OF i] by blast
    have gone: "indexes cv' entityID = None"
      unfolding cv' by (simp add: removeEntity_indexes[OF at i])
    have rest: "\<forall>e s. e \<noteq> entityID \<and> indexes cv e = Some s \<longrightarrow>
          indexes cv' e = Some (if i < s then s - 1 else s)"
      unfolding cv' by (simp add: removeEntity_indexes[OF at i])
    from c len shift gone rest show ?thesis by blast
  qed
  have store: "\<exists>cv'. ComponentVector_removeEntity entityID cv = (Inr (), cv')
          \<and> dom (indexes cv') = dom (indexes cv) - {entityID}
          \<and> (\<forall>e s. e \<noteq> entityID \<and> indexes cv e = Some s \<longrightarrow>
                (\<exists>s'. indexes cv' e = Some s'
                    \<and> unat s' = (if unat i < unat s then unat s - 1 else unat s)
                    \<and> unat s' < length (components cv')
                    \<and> components cv' ! unat s' = components cv ! unat s))
          \<and> wf_store cv'"
    if wf: "wf_store cv"
  proof -
    let ?cv' = "snd (ComponentVector_removeEntity entityID cv)"
    from wf at have i: "unat i < length (components cv)" by (auto simp: wf_store_def)
    have r: "ComponentVector_removeEntity entityID cv = (Inr (), ?cv')"
      by (simp add: removeEntity_present[OF at i])
    have d: "dom (indexes ?cv') = dom (indexes cv) - {entityID}"
      by (auto simp: removeEntity_indexes[OF at i] dom_def split: if_splits)
    have wf': "wf_store ?cv'" by (rule removeEntity_wf[OF wf at])
    have surv: "\<exists>s'. indexes ?cv' e = Some s'
                  \<and> unat s' = (if unat i < unat s then unat s - 1 else unat s)
                  \<and> unat s' < length (components ?cv')
                  \<and> components ?cv' ! unat s' = components cv ! unat s"
      if e: "e \<noteq> entityID \<and> indexes cv e = Some s" for e s
    proof -
      let ?s' = "if i < s then s - 1 else s"
      from e have 1: "indexes ?cv' e = Some ?s'"
        by (simp add: removeEntity_indexes[OF at i])
      have 2: "unat ?s' = (if unat i < unat s then unat s - 1 else unat s)"
        by (rule slot_shift_unat)
      from wf' 1 have 3: "unat ?s' < length (components ?cv')"
        unfolding wf_store_def by blast
      from e have 4: "components ?cv' ! unat ?s' = components cv ! unat s"
        using removeEntity_value[OF wf at] by blast
      from 1 2 3 4 show ?thesis by blast
    qed
    from r d surv wf' show ?thesis by blast
  qed
  from mech store show ?thesis by blast
qed

text \<open>
  C6. The claim asks that, for every store that holds the entity at some slot,
  a successful removal leaves exactly the surviving entities, each with its
  original value, at valid slots. On the code this fails for a store that the
  public operations produce: after \<open>addComponent\<close> for the entities 0, 1 and
  2 with the values 10, 11 and 12, the lookup \<open>getComponentAt(9)\<close> of the
  absent entity 9 returns 10 and registers entity 9 at slot 0, next to entity
  0. The store then holds entity 9 at slot 0, and \<open>removeEntity(9)\<close> returns
  normally: it erases the dense element at slot 0, which is the value 10 of
  entity 0, and lowers the slots of the entities 1 and 2. Afterwards the
  entities 0 and 1 share slot 0 and a lookup of entity 0 returns 11, the value
  of entity 1.
\<close>

theorem removeEntity_after_absent_lookup_loses_survivor_value:
  "ComponentVector_getComponentAt 9
     (snd (ComponentVector_addComponent 2 12
       (snd (ComponentVector_addComponent 1 11
         (snd (ComponentVector_addComponent 0 (10::nat) ComponentVector_empty))))))
     = (Inr 10,
        \<lparr>indexes = [0 \<mapsto> 0, 1 \<mapsto> 1, 2 \<mapsto> 2, 9 \<mapsto> 0], components = [10, 11, 12]\<rparr>)
   \<and> ComponentVector_removeEntity 9
        \<lparr>indexes = [0 \<mapsto> 0, 1 \<mapsto> 1, 2 \<mapsto> 2, 9 \<mapsto> 0], components = [10, 11, 12::nat]\<rparr>
     = (Inr (), \<lparr>indexes = [0 \<mapsto> 0, 1 \<mapsto> 0, 2 \<mapsto> 1], components = [11, 12]\<rparr>)
   \<and> ComponentVector_getComponentAt 0
        \<lparr>indexes = [0 \<mapsto> 0, 1 \<mapsto> 0, 2 \<mapsto> 1], components = [11, 12::nat]\<rparr>
     = (Inr 11, \<lparr>indexes = [0 \<mapsto> 0, 1 \<mapsto> 0, 2 \<mapsto> 1], components = [11, 12]\<rparr>)"
  by (simp add: ComponentVector_getComponentAt_def ComponentVector_addComponent_def
      ComponentVector_removeEntity_def ComponentVector_empty_def std_map_insert_def
      Let_def fun_eq_iff)

subsection \<open>A second insert for the same entity\<close>

lemma addComponent_present:
  assumes "indexes cv entityID = Some s"
  shows "ComponentVector_addComponent entityID c cv
           = (Inr (), cv\<lparr>components := components cv @ [c]\<rparr>)"
  using assms by (simp add: ComponentVector_addComponent_def std_map_insert_def Let_def)

text \<open>
  C1. The claim asks that a second insert of a \<open>T\<close> for an entity that already
  holds one fails with \<open>DoubleInsert\<close> and leaves the dense array and the sparse
  index unchanged. On the code, entity 0 of a fresh manager receives the
  components 1 and 2 of the same type in two \<open>addComponent\<close> calls: the second
  call returns normally, the sparse index still maps entity 0 to slot 0, and
  the dense array has grown to \<open>[1, 2]\<close>, its second element reachable from no
  entity.
\<close>

theorem addComponent_twice_appends_unreachable_slot:
  "ECSManager_addComponent \<lparr>type_name = 7, derives_Component = True\<rparr> 0 (2::nat)
     (snd (ECSManager_addComponent \<lparr>type_name = 7, derives_Component = True\<rparr> 0 1
            (snd (createEntity ECSManager_new))))
   = (Inr (),
      \<lparr>systems = [], rsystems = [],
       manager_components =
         \<lparr>componentVectors = [(7, \<lparr>indexes = [0 \<mapsto> 0], components = [1, 2]\<rparr>)]\<rparr>,
       entities = [0 \<mapsto> Entity 0], nextID = 1, reusableIDs = [],
       objects = 0, trace = []\<rparr>)"
  by (simp add: ECSManager_addComponent_def ComponentManager_addComponent_def
      ComponentManager_getComponentVector_def ComponentVector_addComponent_def
      ComponentVector_empty_def std_map_insert_def createEntity_def generateEntityID_def
      ECSManager_new_def Let_def)

section \<open>Properties of the broadcast and of destroyEntity\<close>

lemma removeEntity_Inr_absent:
  assumes "ComponentVector_removeEntity entityID cv = (Inr u, cv')"
  shows "indexes cv' entityID = None"
  using assms
  by (auto simp: ComponentVector_removeEntity_def Let_def split: option.splits if_splits)

lemma removeEntity_loop_Inr_absent:
  assumes "removeEntity_loop entityID cvs = (Inr u, cvs')"
  shows "\<forall>(key, cv') \<in> set cvs'. indexes cv' entityID = None"
  using assms
proof (induction cvs arbitrary: cvs')
  case Nil
  then show ?case by simp
next
  case (Cons p cvs)
  obtain key cv where p: "p = (key, cv)" by (cases p)
  from Cons.prems obtain u1 cv1 r rest' where
    1: "ComponentVector_removeEntity entityID cv = (Inr u1, cv1)" and
    2: "removeEntity_loop entityID cvs = (r, rest')" and
    3: "r = Inr u" "cvs' = (key, cv1) # rest'"
    unfolding p by (auto split: prod.splits sum.splits)
  from Cons.IH[of rest'] 2 3
  have "\<forall>(key, cv') \<in> set rest'. indexes cv' entityID = None" by simp
  with removeEntity_Inr_absent[OF 1] 3 show ?case by simp
qed

lemma removeEntity_loop_all_held:
  assumes "\<forall>(key, cv) \<in> set cvs.
             \<exists>s. indexes cv entityID = Some s \<and> unat s < length (components cv)"
  shows "fst (removeEntity_loop entityID cvs) = Inr ()"
  using assms
proof (induction cvs)
  case Nil
  then show ?case by simp
next
  case (Cons p cvs)
  obtain key cv where p: "p = (key, cv)" by (cases p)
  from Cons.prems p obtain s where
    s: "indexes cv entityID = Some s" "unat s < length (components cv)" by auto
  from Cons have IH: "fst (removeEntity_loop entityID cvs) = Inr ()" by simp
  show ?case unfolding p using s IH
    by (auto simp: ComponentVector_removeEntity_def Let_def split: prod.splits)
qed

text \<open>
  C5. The claim asks that the broadcast reaches every store and silently
  skips a store in which the entity is absent. On the code it does not: with
  three stores in key order, of which the first and the third hold entity 0
  and the second does not, \<open>removeEntity(0)\<close> removes the entity from the
  first store, is ended by the \<open>out_of_range\<close> of the second store, and never
  visits the third, which still holds the entity.
\<close>

theorem ComponentManager_removeEntity_stops_at_absent:
  "ComponentManager_removeEntity 0
     \<lparr>componentVectors =
        [(1, \<lparr>indexes = [0 \<mapsto> 0, 1 \<mapsto> 1], components = [10, 11::nat]\<rparr>),
         (2, \<lparr>indexes = [1 \<mapsto> 0], components = [21]\<rparr>),
         (3, \<lparr>indexes = [0 \<mapsto> 0], components = [30]\<rparr>)]\<rparr>
   = (Inl OutOfRange,
      \<lparr>componentVectors =
        [(1, \<lparr>indexes = [1 \<mapsto> 0], components = [11]\<rparr>),
         (2, \<lparr>indexes = [1 \<mapsto> 0], components = [21]\<rparr>),
         (3, \<lparr>indexes = [0 \<mapsto> 0], components = [30]\<rparr>)]\<rparr>)"
  by (simp add: ComponentManager_removeEntity_def ComponentVector_removeEntity_def
      Let_def fun_eq_iff)

lemma destroyEntity_not_live:
  "entities m entityID = None \<Longrightarrow> destroyEntity entityID m = (Inl OutOfRange, m)"
  by (simp add: destroyEntity_def)

lemma destroyEntity_live:
  assumes "entities m entityID = Some e" "destroyEntity entityID m = (r, m')"
  shows "r = Inr () \<longrightarrow>
            (\<forall>(key, cv) \<in> set (componentVectors (manager_components m')).
                indexes cv entityID = None) \<and>
            entities m' = (entities m)(entityID := None) \<and>
            reusableIDs m' = reusableIDs m @ [entityID]"
    and "r \<noteq> Inr () \<longrightarrow> entities m' = entities m \<and> reusableIDs m' = reusableIDs m"
proof -
  obtain rr cvs' where
    l: "removeEntity_loop entityID (componentVectors (manager_components m)) = (rr, cvs')"
    by (cases "removeEntity_loop entityID (componentVectors (manager_components m))")
  show "r \<noteq> Inr () \<longrightarrow> entities m' = entities m \<and> reusableIDs m' = reusableIDs m"
    using assms l by (cases rr) (auto simp: destroyEntity_def ComponentManager_removeEntity_def)
  show "r = Inr () \<longrightarrow>
            (\<forall>(key, cv) \<in> set (componentVectors (manager_components m')).
                indexes cv entityID = None) \<and>
            entities m' = (entities m)(entityID := None) \<and>
            reusableIDs m' = reusableIDs m @ [entityID]"
  proof (cases rr)
    case (Inl a)
    then show ?thesis
      using assms l by (auto simp: destroyEntity_def ComponentManager_removeEntity_def)
  next
    case (Inr u)
    with l have "\<forall>(key, cv') \<in> set cvs'. indexes cv' entityID = None"
      using removeEntity_loop_Inr_absent by blast
    then show ?thesis
      using assms l Inr by (auto simp: destroyEntity_def ComponentManager_removeEntity_def)
  qed
qed

lemma destroyEntity_all_held:
  assumes "entities m entityID = Some e"
    "\<forall>(key, cv) \<in> set (componentVectors (manager_components m)).
        \<exists>s. indexes cv entityID = Some s \<and> unat s < length (components cv)"
  shows "fst (destroyEntity entityID m) = Inr ()"
  using removeEntity_loop_all_held[OF assms(2)] assms(1)
  by (auto simp: destroyEntity_def ComponentManager_removeEntity_def
           split: prod.splits sum.splits)

lemma destroyEntity_twice:
  assumes "destroyEntity entityID m = (Inr (), m')"
  shows "destroyEntity entityID m' = (Inl OutOfRange, m')"
proof -
  from assms have "entities m' entityID = None"
    by (auto simp: destroyEntity_def split: option.splits prod.splits sum.splits)
  then show ?thesis by (rule destroyEntity_not_live)
qed

text \<open>
  What \<open>destroyEntity\<close> does. For an ID that is not live it throws
  \<open>out_of_range\<close> (the code's \<open>NotFound\<close>) and leaves the whole manager as it
  was; a second \<open>destroyEntity\<close> of an ID that a first one destroyed is such a
  call. For a live ID, when the call returns normally no store holds the ID,
  the entity has left the registry and the ID has been appended to the reuse
  pool; when the broadcast to the stores fails, the registry and the reuse
  pool are as before. The call returns normally when every store holds the ID
  at a position of its dense array.
\<close>

lemma destroyEntity_effect:
  "(entities m entityID = None \<longrightarrow> destroyEntity entityID m = (Inl OutOfRange, m))
   \<and> (entities m entityID \<noteq> None \<longrightarrow>
        (\<exists>r m'. destroyEntity entityID m = (r, m')
           \<and> (r = Inr () \<longrightarrow>
                (\<forall>(key, cv) \<in> set (componentVectors (manager_components m')).
                    indexes cv entityID = None)
                \<and> entities m' = (entities m)(entityID := None)
                \<and> reusableIDs m' = reusableIDs m @ [entityID])
           \<and> (r \<noteq> Inr () \<longrightarrow>
                entities m' = entities m \<and> reusableIDs m' = reusableIDs m)))
   \<and> (\<forall>m'. destroyEntity entityID m = (Inr (), m') \<longrightarrow>
         destroyEntity entityID m' = (Inl OutOfRange, m'))
   \<and> (entities m entityID \<noteq> None
        \<and> (\<forall>(key, cv) \<in> set (componentVectors (manager_components m)).
              \<exists>s. indexes cv entityID = Some s \<and> unat s < length (components cv))
      \<longrightarrow> fst (destroyEntity entityID m) = Inr ())"
proof -
  have 1: "entities m entityID = None \<longrightarrow> destroyEntity entityID m = (Inl OutOfRange, m)"
    by (simp add: destroyEntity_not_live)
  have 2: "entities m entityID \<noteq> None \<longrightarrow>
        (\<exists>r m'. destroyEntity entityID m = (r, m')
           \<and> (r = Inr () \<longrightarrow>
                (\<forall>(key, cv) \<in> set (componentVectors (manager_components m')).
                    indexes cv entityID = None)
                \<and> entities m' = (entities m)(entityID := None)
                \<and> reusableIDs m' = reusableIDs m @ [entityID])
           \<and> (r \<noteq> Inr () \<longrightarrow>
                entities m' = entities m \<and> reusableIDs m' = reusableIDs m))"
  proof
    assume "entities m entityID \<noteq> None"
    then obtain e where e: "entities m entityID = Some e" by auto
    obtain r m' where d: "destroyEntity entityID m = (r, m')"
      by (cases "destroyEntity entityID m")
    from d destroyEntity_live[OF e d] show "\<exists>r m'. destroyEntity entityID m = (r, m')
           \<and> (r = Inr () \<longrightarrow>
                (\<forall>(key, cv) \<in> set (componentVectors (manager_components m')).
                    indexes cv entityID = None)
                \<and> entities m' = (entities m)(entityID := None)
                \<and> reusableIDs m' = reusableIDs m @ [entityID])
           \<and> (r \<noteq> Inr () \<longrightarrow>
                entities m' = entities m \<and> reusableIDs m' = reusableIDs m)"
      by blast
  qed
  have 3: "\<forall>m'. destroyEntity entityID m = (Inr (), m') \<longrightarrow>
         destroyEntity entityID m' = (Inl OutOfRange, m')"
    using destroyEntity_twice by blast
  have 4: "entities m entityID \<noteq> None
        \<and> (\<forall>(key, cv) \<in> set (componentVectors (manager_components m)).
              \<exists>s. indexes cv entityID = Some s \<and> unat s < length (components cv))
      \<longrightarrow> fst (destroyEntity entityID m) = Inr ()"
    using destroyEntity_all_held by blast
  from 1 2 3 4 show ?thesis by blast
qed

text \<open>
  C4. The claim asks that \<open>destroyEntity\<close> fails with \<open>NotFound\<close> for an ID
  that is not live and changes nothing then, and that for every live ID it
  removes the ID from every component store before the ID becomes reusable.
  The first half holds on the code (the lemma above). The second does not: on
  a manager built by \<open>createEntity\<close>
  twice, \<open>addComponent\<close> of a first component type for entity 0, of a second
  type for entity 1 and of a third type for entity 0, the entity 0 is live,
  and \<open>destroyEntity(0)\<close> removes it from the first store, is ended by the
  \<open>out_of_range\<close> that the second store throws for the absent entity, and
  leaves the third store holding entity 0, the entity live and the reuse pool
  empty. The call can be repeated with the same outcome, so the ID is never
  removed from every store and never becomes reusable.
\<close>

theorem destroyEntity_live_id_stops_at_store_without_it:
  "destroyEntity 0
     (snd (ECSManager_addComponent \<lparr>type_name = 3, derives_Component = True\<rparr> 0 30
       (snd (ECSManager_addComponent \<lparr>type_name = 2, derives_Component = True\<rparr> 1 21
         (snd (ECSManager_addComponent \<lparr>type_name = 1, derives_Component = True\<rparr> 0 (10::nat)
           (snd (createEntity (snd (createEntity ECSManager_new))))))))))
     = (Inl OutOfRange,
        \<lparr>systems = [], rsystems = [],
         manager_components =
           \<lparr>componentVectors =
              [(1, \<lparr>indexes = Map.empty, components = []\<rparr>),
               (2, \<lparr>indexes = [1 \<mapsto> 0], components = [21]\<rparr>),
               (3, \<lparr>indexes = [0 \<mapsto> 0], components = [30]\<rparr>)]\<rparr>,
         entities = [0 \<mapsto> Entity 0, 1 \<mapsto> Entity 1], nextID = 2, reusableIDs = [],
         objects = 0, trace = []\<rparr>)
   \<and> destroyEntity 0
        \<lparr>systems = [], rsystems = [],
         manager_components =
           \<lparr>componentVectors =
              [(1, \<lparr>indexes = Map.empty, components = []::nat list\<rparr>),
               (2, \<lparr>indexes = [1 \<mapsto> 0], components = [21]\<rparr>),
               (3, \<lparr>indexes = [0 \<mapsto> 0], components = [30]\<rparr>)]\<rparr>,
         entities = [0 \<mapsto> Entity 0, 1 \<mapsto> Entity 1], nextID = 2, reusableIDs = [],
         objects = 0, trace = []\<rparr>
     = (Inl OutOfRange,
        \<lparr>systems = [], rsystems = [],
         manager_components =
           \<lparr>componentVectors =
              [(1, \<lparr>indexes = Map.empty, components = []\<rparr>),
               (2, \<lparr>indexes = [1 \<mapsto> 0], components = [21]\<rparr>),
               (3, \<lparr>indexes = [0 \<mapsto> 0], components = [30]\<rparr>)]\<rparr>,
         entities = [0 \<mapsto> Entity 0, 1 \<mapsto> Entity 1], nextID = 2, reusableIDs = [],
         objects = 0, trace = []\<rparr>)"
  by (simp add: destroyEntity_def ComponentManager_removeEntity_def
      ComponentVector_removeEntity_def ECSManager_addComponent_def
      ComponentManager_addComponent_def ComponentManager_getComponentVector_def
      ComponentVector_addComponent_def ComponentVector_empty_def std_map_insert_def
      createEntity_def generateEntityID_def ECSManager_new_def Let_def fun_eq_iff)

section \<open>Properties of the entity registry\<close>

lemma createEntity_result:
  "createEntity m =
     (let newID = (if reusableIDs m \<noteq> [] then last (reusableIDs m) else nextID m)
      in (Inr (case entities m newID of None \<Rightarrow> Entity newID | Some e \<Rightarrow> e),
          m\<lparr>reusableIDs := butlast (reusableIDs m),
            nextID := (if reusableIDs m \<noteq> [] then nextID m else nextID m + 1),
            entities := std_map_insert newID (Entity newID) (entities m)\<rparr>))"
  by (cases "entities m (last (reusableIDs m))"; cases "entities m (nextID m)")
     (simp_all add: createEntity_def generateEntityID_def std_map_insert_def Let_def)

lemma createEntity_issues:
  assumes "entities_wf m"
  shows "\<exists>e m'. createEntity m = (Inr e, m')
           \<and> Entity_entityID e
               = (if reusableIDs m \<noteq> [] then last (reusableIDs m) else nextID m)
           \<and> entities m' (Entity_entityID e) = Some e
           \<and> reusableIDs m' = butlast (reusableIDs m)
           \<and> nextID m' = (if reusableIDs m \<noteq> [] then nextID m else nextID m + 1)"
proof -
  define newID where "newID = (if reusableIDs m \<noteq> [] then last (reusableIDs m) else nextID m)"
  define e where "e = (case entities m newID of None \<Rightarrow> Entity newID | Some e \<Rightarrow> e)"
  define m' where "m' = m\<lparr>reusableIDs := butlast (reusableIDs m),
            nextID := (if reusableIDs m \<noteq> [] then nextID m else nextID m + 1),
            entities := std_map_insert newID (Entity newID) (entities m)\<rparr>"
  have c: "createEntity m = (Inr e, m')"
    unfolding e_def m'_def newID_def by (simp add: createEntity_result Let_def)
  have i: "Entity_entityID e = newID"
    using assms unfolding e_def by (auto simp: entities_wf_def split: option.splits)
  have l: "entities m' newID = Some e"
    unfolding e_def m'_def by (simp add: std_map_insert_def split: option.splits)
  have p: "reusableIDs m' = butlast (reusableIDs m)"
    and n: "nextID m' = (if reusableIDs m \<noteq> [] then nextID m else nextID m + 1)"
    unfolding m'_def by simp_all
  from c i l p n show ?thesis unfolding newID_def by auto
qed

lemma createEntity_after_destroy:
  assumes "destroyEntity entityID m = (Inr (), m1)"
  shows "fst (createEntity m1) = Inr (Entity entityID)"
proof -
  from assms have "entities m1 entityID = None" "reusableIDs m1 = reusableIDs m @ [entityID]"
    by (auto simp: destroyEntity_def split: option.splits prod.splits sum.splits)
  then show ?thesis by (simp add: createEntity_result Let_def)
qed

lemma scenario_A:
  "(case createEntity (ECSManager_new :: unit ECSManager) of (r1, m1) \<Rightarrow>
    case createEntity m1 of (r2, m2) \<Rightarrow>
    case destroyEntity 0 m2 of (r3, m3) \<Rightarrow>
    case createEntity m3 of (r4, m4) \<Rightarrow>
      r1 = Inr (Entity 0) \<and> r2 = Inr (Entity 1) \<and> r3 = Inr () \<and> r4 = Inr (Entity 0))"
  by (simp add: createEntity_def generateEntityID_def destroyEntity_def
       ComponentManager_removeEntity_def std_map_insert_def ECSManager_new_def Let_def)

lemma destroyEntity_cases:
  assumes "destroyEntity entityID m = (r, m')"
  shows "nextID m' = nextID m \<and>
         ((entities m' = entities m \<and> reusableIDs m' = reusableIDs m \<and> r \<noteq> Inr ()) \<or>
          (entities m entityID \<noteq> None \<and> r = Inr ()
             \<and> entities m' = (entities m)(entityID := None)
             \<and> reusableIDs m' = reusableIDs m @ [entityID]))"
  using assms
  by (auto simp: destroyEntity_def split: option.splits prod.splits sum.splits)

subsection \<open>Invariants along a sequence of calls\<close>

lemma entities_wf_new: "entities_wf ECSManager_new"
  by (simp add: entities_wf_def ECSManager_new_def)

lemma entities_wf_create:
  assumes "entities_wf m"
  shows "entities_wf (snd (createEntity m))"
  using assms
  by (auto simp: entities_wf_def createEntity_result Let_def std_map_insert_def
           split: option.splits if_splits)

lemma entities_wf_destroy:
  assumes "entities_wf m"
  shows "entities_wf (snd (destroyEntity entityID m))"
proof -
  obtain r m' where d: "destroyEntity entityID m = (r, m')"
    by (cases "destroyEntity entityID m")
  from destroyEntity_cases[OF d] assms show ?thesis
    unfolding d entities_wf_def by (auto split: if_splits)
qed

lemma entities_wf_run: "entities_wf m \<Longrightarrow> entities_wf (run cs m)"
  by (induction cs m rule: run.induct) (simp_all add: entities_wf_create entities_wf_destroy)

lemma pool_create:
  assumes "distinct (reusableIDs m)" "\<forall>i \<in> set (reusableIDs m). entities m i = None"
  shows "distinct (reusableIDs (snd (createEntity m)))
       \<and> (\<forall>i \<in> set (reusableIDs (snd (createEntity m))).
             entities (snd (createEntity m)) i = None)"
proof (cases "reusableIDs m = []")
  case True
  then show ?thesis by (simp add: createEntity_result Let_def)
next
  case False
  let ?i = "last (reusableIDs m)"
  have bl: "reusableIDs m = butlast (reusableIDs m) @ [?i]" using False by simp
  from assms(1) have "distinct (butlast (reusableIDs m) @ [?i])" using bl by metis
  then have notin: "?i \<notin> set (butlast (reusableIDs m))"
    and dist: "distinct (butlast (reusableIDs m))" by auto
  have sub: "set (butlast (reusableIDs m)) \<subseteq> set (reusableIDs m)"
    by (meson in_set_butlastD subsetI)
  show ?thesis
    using assms(2) notin dist sub False
    by (auto simp: createEntity_result Let_def std_map_insert_def split: option.splits)
qed

lemma pool_destroy:
  assumes "distinct (reusableIDs m)" "\<forall>i \<in> set (reusableIDs m). entities m i = None"
  shows "distinct (reusableIDs (snd (destroyEntity entityID m)))
       \<and> (\<forall>i \<in> set (reusableIDs (snd (destroyEntity entityID m))).
             entities (snd (destroyEntity entityID m)) i = None)"
proof -
  obtain r m' where d: "destroyEntity entityID m = (r, m')"
    by (cases "destroyEntity entityID m")
  from destroyEntity_cases[OF d] assms show ?thesis
    unfolding d by auto
qed

lemma pool_run:
  assumes "distinct (reusableIDs m)" "\<forall>i \<in> set (reusableIDs m). entities m i = None"
  shows "distinct (reusableIDs (run cs m))
       \<and> (\<forall>i \<in> set (reusableIDs (run cs m)). entities (run cs m) i = None)"
  using assms
proof (induction cs m rule: run.induct)
  case (1 m)
  then show ?case by simp
next
  case (2 cs m)
  from pool_create[OF "2.prems"] "2.IH" show ?case by simp
next
  case (3 entityID cs m)
  from pool_destroy[OF "3.prems"] "3.IH" show ?case by simp
qed

lemma ids_inv_destroy:
  assumes "ids_inv n m"
  shows "ids_inv n (snd (destroyEntity entityID m))"
proof -
  obtain r m' where d: "destroyEntity entityID m = (r, m')"
    by (cases "destroyEntity entityID m")
  from destroyEntity_cases[OF d] assms show ?thesis
    unfolding d ids_inv_def by (auto split: if_splits)
qed

lemma unat_of_nat32: "n < 2 ^ 32 \<Longrightarrow> unat (word_of_nat n :: 32 word) = n"
  by (simp add: unat_of_nat)

lemma ids_inv_create_pool:
  assumes "ids_inv n m" "reusableIDs m \<noteq> []"
  shows "ids_inv n (snd (createEntity m))"
    and "entities m (last (reusableIDs m)) = None"
    and "fst (createEntity m) = Inr (Entity (last (reusableIDs m)))"
proof -
  let ?i = "last (reusableIDs m)"
  from assms have in_pool: "?i \<in> set (reusableIDs m)" by simp
  with assms(1) show none: "entities m ?i = None" by (auto simp: ids_inv_def)
  then show "fst (createEntity m) = Inr (Entity ?i)"
    using assms(2) by (simp add: createEntity_result Let_def)
  have bl: "reusableIDs m = butlast (reusableIDs m) @ [?i]" using assms(2) by simp
  from assms(1) have "distinct (butlast (reusableIDs m) @ [?i])"
    unfolding ids_inv_def using bl by metis
  then have notin: "?i \<notin> set (butlast (reusableIDs m))"
    and dist: "distinct (butlast (reusableIDs m))" by auto
  have sub: "set (butlast (reusableIDs m)) \<subseteq> set (reusableIDs m)"
    by (meson in_set_butlastD subsetI)
  show "ids_inv n (snd (createEntity m))"
    using assms none notin dist sub in_pool
    by (auto simp: createEntity_result ids_inv_def std_map_insert_def Let_def
             split: if_splits)
qed

lemma ids_inv_create_counter:
  assumes "ids_inv n m" "reusableIDs m = []" "n < 2 ^ 32"
  shows "ids_inv (Suc n) (snd (createEntity m))"
    and "entities m (nextID m) = None"
    and "fst (createEntity m) = Inr (Entity (nextID m))"
proof -
  from assms have u: "unat (nextID m) = n" by (simp add: ids_inv_def unat_of_nat32)
  with assms(1) show none: "entities m (nextID m) = None"
    by (fastforce simp: ids_inv_def)
  then show "fst (createEntity m) = Inr (Entity (nextID m))"
    using assms(2) by (simp add: createEntity_result Let_def)
  show "ids_inv (Suc n) (snd (createEntity m))"
    using assms none u
    by (auto simp: createEntity_result ids_inv_def std_map_insert_def Let_def less_Suc_eq
             split: if_splits)
qed

lemma ids_inv_run:
  assumes "ids_inv n m" "n + advances cs m \<le> 2 ^ 32"
  shows "fresh_ids cs m \<and> ids_inv (n + advances cs m) (run cs m)"
  using assms
proof (induction cs arbitrary: n m)
  case Nil
  then show ?case by simp
next
  case (Cons c cs)
  show ?case
  proof (cases c)
    case CreateEntity
    obtain r m' where cr: "createEntity m = (r, m')" by (cases "createEntity m")
    show ?thesis
    proof (cases "reusableIDs m = []")
      case True
      with Cons.prems CreateEntity cr
      have budget: "Suc n + advances cs m' \<le> 2 ^ 32" by simp
      then have lt: "n < 2 ^ 32" by simp
      from ids_inv_create_counter[OF Cons.prems(1) True lt] cr
      have inv': "ids_inv (Suc n) m'" and none: "entities m (nextID m) = None"
        and r: "r = Inr (Entity (nextID m))" by auto
      from Cons.IH[OF inv' budget]
      show ?thesis using CreateEntity cr none r True by simp
    next
      case False
      with Cons.prems CreateEntity cr
      have budget: "n + advances cs m' \<le> 2 ^ 32" by simp
      from ids_inv_create_pool[OF Cons.prems(1) False] cr
      have inv': "ids_inv n m'" and none: "entities m (last (reusableIDs m)) = None"
        and r: "r = Inr (Entity (last (reusableIDs m)))" by auto
      from Cons.IH[OF inv' budget]
      show ?thesis using CreateEntity cr none r False by simp
    qed
  next
    case (DestroyEntity i)
    with Cons.prems
    have budget: "n + advances cs (snd (destroyEntity i m)) \<le> 2 ^ 32" by simp
    from Cons.IH[OF ids_inv_destroy[OF Cons.prems(1)] budget]
    show ?thesis using DestroyEntity by simp
  qed
qed

lemma ids_inv_new: "ids_inv 0 ECSManager_new"
  by (simp add: ids_inv_def ECSManager_new_def)

lemma ids_all_held_new: "ids_all_held 0 ECSManager_new"
  by (simp add: ids_all_held_def)

lemma ids_all_held_destroy:
  assumes "ids_all_held n m"
  shows "ids_all_held n (snd (destroyEntity entityID m))"
proof -
  obtain r m' where d: "destroyEntity entityID m = (r, m')"
    by (cases "destroyEntity entityID m")
  from destroyEntity_cases[OF d]
  have "i \<in> set (reusableIDs m') \<or> entities m' i \<noteq> None"
    if "i \<in> set (reusableIDs m) \<or> entities m i \<noteq> None" for i
    using that by (cases "i = entityID") auto
  with assms show ?thesis
    unfolding d ids_all_held_def by simp
qed

lemma ids_all_held_create_pool:
  assumes "ids_all_held n m" "reusableIDs m \<noteq> []"
  shows "ids_all_held n (snd (createEntity m))"
proof -
  have "i = last (reusableIDs m) \<or> i \<in> set (butlast (reusableIDs m))"
    if "i \<in> set (reusableIDs m)" for i
    using that assms(2) by (cases "reusableIDs m" rule: rev_cases) auto
  with assms show ?thesis
    unfolding ids_all_held_def
    by (auto simp: createEntity_result Let_def std_map_insert_def split: option.splits)
qed

lemma ids_all_held_create_counter:
  assumes "ids_all_held n m" "reusableIDs m = []" "nextID m = word_of_nat n" "n < 2 ^ 32"
  shows "ids_all_held (Suc n) (snd (createEntity m))"
proof -
  have "unat i < n \<or> i = word_of_nat n" if "unat i < Suc n" for i :: ID
    using that assms(4) by (metis less_Suc_eq unat_of_nat32 word_unat_eq_iff)
  with assms show ?thesis
    unfolding ids_all_held_def
    by (auto simp: createEntity_result Let_def std_map_insert_def split: option.splits)
qed

lemma all_ids_below: "unat (i :: ID) < 2 ^ 32"
  using unsigned_less[of i, where 'a=nat] by simp

lemma not_fresh_beyond_wrap:
  assumes "ids_inv n m" "ids_all_held n m" "2 ^ 32 < n + advances cs m"
  shows "\<not> fresh_ids cs m"
  using assms
proof (induction cs arbitrary: n m)
  case Nil
  then show ?case by (simp add: ids_inv_def)
next
  case (Cons c cs)
  show ?case
  proof (cases c)
    case CreateEntity
    obtain r m' where cr: "createEntity m = (r, m')" by (cases "createEntity m")
    show ?thesis
    proof (cases "reusableIDs m = []")
      case True
      show ?thesis
      proof (cases "n < 2 ^ 32")
        case lt: True
        from Cons.prems(1) have c: "nextID m = word_of_nat n" by (simp add: ids_inv_def)
        from ids_inv_create_counter(1)[OF Cons.prems(1) True lt] cr
        have inv': "ids_inv (Suc n) m'" by simp
        from ids_all_held_create_counter[OF Cons.prems(2) True c lt] cr
        have held': "ids_all_held (Suc n) m'" by simp
        from Cons.prems(3) CreateEntity cr True
        have "2 ^ 32 < Suc n + advances cs m'" by simp
        from Cons.IH[OF inv' held' this] show ?thesis
          using CreateEntity cr by simp
      next
        case False
        with Cons.prems(1) have n: "n = 2 ^ 32" by (simp add: ids_inv_def)
        have live: "entities m i \<noteq> None" for i
          using Cons.prems(2) True all_ids_below[of i] unfolding ids_all_held_def n by auto
        from live[of "nextID m"] obtain e where e: "entities m (nextID m) = Some e" by auto
        with True have "fst (createEntity m) = Inr e"
          by (simp add: createEntity_result Let_def)
        with cr have "r = Inr e" by simp
        with live[of "Entity_entityID e"] show ?thesis
          using CreateEntity cr by simp
      qed
    next
      case False
      from ids_inv_create_pool(1)[OF Cons.prems(1) False] cr
      have inv': "ids_inv n m'" by simp
      from ids_all_held_create_pool[OF Cons.prems(2) False] cr
      have held': "ids_all_held n m'" by simp
      from Cons.prems(3) CreateEntity cr False
      have "2 ^ 32 < n + advances cs m'" by simp
      from Cons.IH[OF inv' held' this] show ?thesis
        using CreateEntity cr by simp
    qed
  next
    case (DestroyEntity i)
    with Cons.prems(3)
    have "2 ^ 32 < n + advances cs (snd (destroyEntity i m))" by simp
    from Cons.IH[OF ids_inv_destroy[OF Cons.prems(1)] ids_all_held_destroy[OF Cons.prems(2)] this]
    show ?thesis using DestroyEntity by simp
  qed
qed

lemma ids_all_held_full_create:
  assumes "ids_all_held (2 ^ 32) m"
  shows "ids_all_held (2 ^ 32) (snd (createEntity m))"
proof (cases "reusableIDs m = []")
  case True
  with assms show ?thesis
    unfolding ids_all_held_def
    by (auto simp: createEntity_result Let_def std_map_insert_def split: option.splits)
next
  case False
  with assms show ?thesis by (rule ids_all_held_create_pool)
qed

lemma ids_all_held_full_run:
  "ids_all_held (2 ^ 32) m \<Longrightarrow> ids_all_held (2 ^ 32) (run cs m)"
proof (induction cs m rule: run.induct)
  case (1 m)
  then show ?case by (simp only: run.simps)
next
  case (2 cs m)
  from "2.IH"[OF ids_all_held_full_create[OF "2.prems"]]
  show ?case by (simp only: run.simps)
next
  case (3 entityID cs m)
  from "3.IH"[OF ids_all_held_destroy[OF "3.prems"]]
  show ?case by (simp only: run.simps)
qed

lemma all_issued_from_wrap_on:
  assumes "ids_inv n m" "ids_all_held n m" "2 ^ 32 \<le> n + advances cs m"
  shows "ids_all_held (2 ^ 32) (run cs m)"
  using assms
proof (induction cs arbitrary: n m)
  case Nil
  then have "n = 2 ^ 32" by (simp add: ids_inv_def)
  with Nil show ?case by simp
next
  case (Cons c cs)
  show ?case
  proof (cases c)
    case CreateEntity
    obtain r m' where cr: "createEntity m = (r, m')" by (cases "createEntity m")
    show ?thesis
    proof (cases "reusableIDs m = []")
      case True
      show ?thesis
      proof (cases "n < 2 ^ 32")
        case lt: True
        from Cons.prems(1) have c: "nextID m = word_of_nat n" by (simp add: ids_inv_def)
        from ids_inv_create_counter(1)[OF Cons.prems(1) True lt] cr
        have inv': "ids_inv (Suc n) m'" by simp
        from ids_all_held_create_counter[OF Cons.prems(2) True c lt] cr
        have held': "ids_all_held (Suc n) m'" by simp
        from Cons.prems(3) CreateEntity cr True
        have "2 ^ 32 \<le> Suc n + advances cs m'" by simp
        from Cons.IH[OF inv' held' this] show ?thesis
          using CreateEntity cr by simp
      next
        case False
        with Cons.prems(1) have "n = 2 ^ 32" by (simp add: ids_inv_def)
        with Cons.prems(2) have "ids_all_held (2 ^ 32) m" by simp
        then show ?thesis by (rule ids_all_held_full_run)
      qed
    next
      case False
      from ids_inv_create_pool(1)[OF Cons.prems(1) False] cr
      have inv': "ids_inv n m'" by simp
      from ids_all_held_create_pool[OF Cons.prems(2) False] cr
      have held': "ids_all_held n m'" by simp
      from Cons.prems(3) CreateEntity cr False
      have "2 ^ 32 \<le> n + advances cs m'" by simp
      from Cons.IH[OF inv' held' this] show ?thesis
        using CreateEntity cr by simp
    qed
  next
    case (DestroyEntity i)
    with Cons.prems(3)
    have "2 ^ 32 \<le> n + advances cs (snd (destroyEntity i m))" by simp
    from Cons.IH[OF ids_inv_destroy[OF Cons.prems(1)] ids_all_held_destroy[OF Cons.prems(2)] this]
    show ?thesis using DestroyEntity by simp
  qed
qed

lemma run_append: "run (xs @ ys) m = run ys (run xs m)"
  by (induction xs m rule: run.induct) auto

lemma fresh_ids_append:
  "fresh_ids (xs @ ys) m \<longleftrightarrow> fresh_ids xs m \<and> fresh_ids ys (run xs m)"
  by (induction xs m rule: fresh_ids.induct) (auto split: prod.splits sum.splits)

lemma run_creates:
  assumes "n \<le> 2 ^ 32"
  shows "nextID (run (replicate n CreateEntity) (ECSManager_new :: 'c ECSManager))
           = word_of_nat n
       \<and> reusableIDs (run (replicate n CreateEntity) (ECSManager_new :: 'c ECSManager)) = []
       \<and> (\<forall>i. entities (run (replicate n CreateEntity) (ECSManager_new :: 'c ECSManager)) i
                = (if unat i < n then Some (Entity i) else None))"
  using assms
proof (induction n)
  case 0
  then show ?case by (simp add: ECSManager_new_def)
next
  case (Suc n)
  let ?m = "run (replicate n CreateEntity) (ECSManager_new :: 'c ECSManager)"
  from Suc have IH: "nextID ?m = word_of_nat n" "reusableIDs ?m = []"
     "\<And>i. entities ?m i = (if unat i < n then Some (Entity i) else None)"
    and lt: "n < 2 ^ 32" by auto
  have r: "run (replicate (Suc n) CreateEntity) (ECSManager_new :: 'c ECSManager)
             = snd (createEntity ?m)"
  proof -
    have "replicate (Suc n) CreateEntity = replicate n CreateEntity @ [CreateEntity]"
      by (simp add: replicate_append_same)
    then show ?thesis by (simp only: run_append) simp
  qed
  have "\<And>i::ID. unat i < Suc n \<longleftrightarrow> unat i < n \<or> i = word_of_nat n"
    using lt by (metis less_Suc_eq unat_of_nat32 word_unat_eq_iff)
  then show ?case unfolding r using IH lt
    by (simp add: createEntity_result Let_def std_map_insert_def unat_of_nat32)
qed

subsection \<open>The ID that createEntity returns\<close>

text \<open>
  C7. The claim asks that in every state of the registry \<open>createEntity\<close>
  returns, when the reuse pool is empty, the next unused counter value. The
  counter is a 32-bit value: after \<open>2 ^ 32\<close> calls of \<open>createEntity\<close> on a
  new manager the pool is empty, every ID is live and \<open>nextID\<close> is 0 again,
  and \<open>createEntity\<close> returns the counter value 0, which the live entity 0
  already uses.
\<close>

theorem createEntity_after_wrap_returns_used_counter_value:
  "reusableIDs (run (replicate (2 ^ 32) CreateEntity) (ECSManager_new :: unit ECSManager)) = []
   \<and> entities_wf (run (replicate (2 ^ 32) CreateEntity) (ECSManager_new :: unit ECSManager))
   \<and> entities (run (replicate (2 ^ 32) CreateEntity) (ECSManager_new :: unit ECSManager)) 0
       = Some (Entity 0)
   \<and> fst (createEntity
            (run (replicate (2 ^ 32) CreateEntity) (ECSManager_new :: unit ECSManager)))
       = Inr (Entity 0)"
proof -
  let ?m = "run (replicate (2 ^ 32) CreateEntity) (ECSManager_new :: unit ECSManager)"
  from run_creates[of "2 ^ 32", where 'c=unit]
  have n: "nextID ?m = 0" and p: "reusableIDs ?m = []"
    and e: "\<And>i. entities ?m i = (if unat i < 2 ^ 32 then Some (Entity i) else None)"
    by auto
  from e[of 0] have live: "entities ?m 0 = Some (Entity 0)" by simp
  have wf: "entities_wf ?m" by (rule entities_wf_run[OF entities_wf_new])
  from n p live have c: "fst (createEntity ?m) = Inr (Entity 0)"
    by (simp add: createEntity_result Let_def)
  from p wf live c show ?thesis by (intro conjI)
qed

text \<open>
  C7, as amended. In every state of the registry, \<open>createEntity\<close> returns
  the entity whose ID is the last element of the reuse pool, which is the most
  recently freed ID, when the pool is not empty, and the value of the counter
  \<open>nextID\<close> otherwise; it removes that ID from the pool or advances the
  counter, and the ID is live afterwards. (The registry maps every live ID to
  the entity with that ID, in every state a sequence of calls reaches.) In
  the states reached from a new manager by \<open>createEntity\<close> and
  \<open>destroyEntity\<close> calls, the counter value is unused (no live entity has
  it and it is not in the pool) exactly when the calls advanced the counter
  fewer than \<open>2 ^ 32\<close> times. A \<open>createEntity\<close> that follows a successful \<open>destroyEntity\<close>
  returns the ID just destroyed. From a new manager the calls
  \<open>createEntity\<close>, \<open>createEntity\<close>, \<open>destroyEntity(0)\<close>, \<open>createEntity\<close>
  yield the IDs 0, 1 and 0 again.
\<close>

theorem createEntity_reuses_last_freed_else_unused_counter:
  "(entities_wf m \<longrightarrow>
      (\<exists>e m'. createEntity m = (Inr e, m')
         \<and> Entity_entityID e
             = (if reusableIDs m \<noteq> [] then last (reusableIDs m) else nextID m)
         \<and> entities m' (Entity_entityID e) = Some e
         \<and> reusableIDs m' = butlast (reusableIDs m)
         \<and> nextID m' = (if reusableIDs m \<noteq> [] then nextID m else nextID m + 1)))
   \<and> entities_wf (run cs (ECSManager_new :: 'c ECSManager))
   \<and> (advances cs (ECSManager_new :: 'c ECSManager) < 2 ^ 32 \<longleftrightarrow>
         entities (run cs (ECSManager_new :: 'c ECSManager))
                  (nextID (run cs (ECSManager_new :: 'c ECSManager))) = None
       \<and> nextID (run cs (ECSManager_new :: 'c ECSManager))
           \<notin> set (reusableIDs (run cs (ECSManager_new :: 'c ECSManager))))
   \<and> (\<forall>m1. destroyEntity entityID m = (Inr (), m1) \<longrightarrow>
         fst (createEntity m1) = Inr (Entity entityID))
   \<and> (case createEntity (ECSManager_new :: unit ECSManager) of (r1, m1) \<Rightarrow>
       case createEntity m1 of (r2, m2) \<Rightarrow>
       case destroyEntity 0 m2 of (r3, m3) \<Rightarrow>
       case createEntity m3 of (r4, m4) \<Rightarrow>
         r1 = Inr (Entity 0) \<and> r2 = Inr (Entity 1) \<and> r3 = Inr () \<and> r4 = Inr (Entity 0))"
proof -
  let ?new = "ECSManager_new :: 'c ECSManager"
  let ?m = "run cs ?new"
  have 1: "entities_wf m \<longrightarrow>
      (\<exists>e m'. createEntity m = (Inr e, m')
         \<and> Entity_entityID e
             = (if reusableIDs m \<noteq> [] then last (reusableIDs m) else nextID m)
         \<and> entities m' (Entity_entityID e) = Some e
         \<and> reusableIDs m' = butlast (reusableIDs m)
         \<and> nextID m' = (if reusableIDs m \<noteq> [] then nextID m else nextID m + 1))"
    by (rule impI) (rule createEntity_issues)
  have 2: "entities_wf ?m" by (rule entities_wf_run[OF entities_wf_new])
  have 3: "advances cs ?new < 2 ^ 32 \<longleftrightarrow>
             entities ?m (nextID ?m) = None \<and> nextID ?m \<notin> set (reusableIDs ?m)"
  proof
    assume lt: "advances cs ?new < 2 ^ 32"
    with ids_inv_run[OF ids_inv_new, of cs, where 'a='c]
    have inv: "ids_inv (advances cs ?new) ?m" by simp
    then have c: "nextID ?m = word_of_nat (advances cs ?new)"
      and b: "\<And>i. i \<in> set (reusableIDs ?m) \<or> entities ?m i \<noteq> None
                 \<Longrightarrow> unat i < advances cs ?new"
      unfolding ids_inv_def by blast+
    from lt have u: "unat (nextID ?m) = advances cs ?new" unfolding c by (rule unat_of_nat32)
    have "\<not> (nextID ?m \<in> set (reusableIDs ?m) \<or> entities ?m (nextID ?m) \<noteq> None)"
    proof
      assume "nextID ?m \<in> set (reusableIDs ?m) \<or> entities ?m (nextID ?m) \<noteq> None"
      from b[OF this] u show False by simp
    qed
    then show "entities ?m (nextID ?m) = None \<and> nextID ?m \<notin> set (reusableIDs ?m)"
      by simp
  next
    assume unused: "entities ?m (nextID ?m) = None \<and> nextID ?m \<notin> set (reusableIDs ?m)"
    show "advances cs ?new < 2 ^ 32"
    proof (rule ccontr)
      assume "\<not> advances cs ?new < 2 ^ 32"
      then have "2 ^ 32 \<le> 0 + advances cs ?new" by simp
      from all_issued_from_wrap_on[OF ids_inv_new ids_all_held_new this]
      have "ids_all_held (2 ^ 32) ?m" .
      with all_ids_below[of "nextID ?m"]
      have "nextID ?m \<in> set (reusableIDs ?m) \<or> entities ?m (nextID ?m) \<noteq> None"
        unfolding ids_all_held_def by blast
      with unused show False by simp
    qed
  qed
  have 4: "\<forall>m1. destroyEntity entityID m = (Inr (), m1) \<longrightarrow>
         fst (createEntity m1) = Inr (Entity entityID)"
    using createEntity_after_destroy by blast
  from 1 2 3 4 scenario_A show ?thesis by (intro conjI)
qed

lemma entities_wf_example:
  "entities_wf \<lparr>systems = [], rsystems = [],
       manager_components = \<lparr>componentVectors = []\<rparr>,
       entities = [1 \<mapsto> Entity 1], nextID = 2, reusableIDs = [0],
       objects = 0, trace = []\<rparr>"
  by (auto simp: entities_wf_def split: if_splits)

theorem createEntity_reuses_last_freed_else_unused_counter_witness:
  "entities_wf \<lparr>systems = [], rsystems = [],
       manager_components = \<lparr>componentVectors = []::(typekey \<times> unit ComponentVector) list\<rparr>,
       entities = [1 \<mapsto> Entity 1], nextID = 2, reusableIDs = [0],
       objects = 0, trace = []\<rparr>
   \<and> fst (createEntity \<lparr>systems = [], rsystems = [],
       manager_components = \<lparr>componentVectors = []::(typekey \<times> unit ComponentVector) list\<rparr>,
       entities = [1 \<mapsto> Entity 1], nextID = 2, reusableIDs = [0],
       objects = 0, trace = []\<rparr>)
     = Inr (Entity 0)
   \<and> advances [CreateEntity, CreateEntity] (ECSManager_new :: unit ECSManager) < 2 ^ 32
   \<and> nextID (run [CreateEntity, CreateEntity] (ECSManager_new :: unit ECSManager)) = 2
   \<and> entities (run [CreateEntity, CreateEntity] (ECSManager_new :: unit ECSManager)) 2 = None"
proof -
  let ?m = "\<lparr>systems = [], rsystems = [],
       manager_components = \<lparr>componentVectors = []::(typekey \<times> unit ComponentVector) list\<rparr>,
       entities = [1 \<mapsto> Entity 1], nextID = 2, reusableIDs = [0],
       objects = 0, trace = []\<rparr>"
  let ?cs = "[CreateEntity, CreateEntity]"
  let ?new = "ECSManager_new :: unit ECSManager"
  note inst = createEntity_reuses_last_freed_else_unused_counter[of ?m ?cs 0, where 'c=unit]
  have wf: "entities_wf ?m" by (rule entities_wf_example)
  from inst[THEN conjunct1, rule_format, OF wf]
  obtain e m' where c: "createEntity ?m = (Inr e, m')"
    and i: "Entity_entityID e
              = (if reusableIDs ?m \<noteq> [] then last (reusableIDs ?m) else nextID ?m)"
    by blast
  from i have "Entity_entityID e = 0" by simp
  then have "e = Entity 0" by (cases e) simp
  with c have r: "fst (createEntity ?m) = Inr (Entity 0)" by simp
  have a: "advances ?cs ?new < 2 ^ 32"
    by (simp add: createEntity_def generateEntityID_def std_map_insert_def
        ECSManager_new_def Let_def)
  have n: "nextID (run ?cs ?new) = 2"
    by (simp add: createEntity_def generateEntityID_def std_map_insert_def
        ECSManager_new_def Let_def)
  from inst[THEN conjunct2, THEN conjunct2, THEN conjunct1, THEN iffD1, OF a]
  have "entities (run ?cs ?new) (nextID (run ?cs ?new)) = None" by (rule conjunct1)
  then have u: "entities (run ?cs ?new) 2 = None" unfolding n .
  from wf r a n u show ?thesis by (intro conjI)
qed

section \<open>Uniqueness of entity IDs\<close>

text \<open>
  C9. The claim asks that, whatever the sequence of \<open>createEntity\<close> and
  \<open>destroyEntity\<close> calls, no two live entities share an ID. The IDs are
  32-bit values and \<open>nextID++\<close> wraps around: after \<open>2 ^ 32\<close> calls of
  \<open>createEntity\<close> on a new manager every ID is live and the counter is 0
  again, and one more \<open>createEntity\<close> hands out the ID 0 that a live entity
  already has.
\<close>

theorem createEntity_after_all_ids_issued_repeats_live_id:
  "\<not> fresh_ids (replicate (2 ^ 32) CreateEntity @ [CreateEntity])
        (ECSManager_new :: unit ECSManager)"
proof -
  let ?m = "run (replicate (2 ^ 32) CreateEntity) (ECSManager_new :: unit ECSManager)"
  from run_creates[of "2 ^ 32", where 'c=unit]
  have n: "nextID ?m = 0" and p: "reusableIDs ?m = []"
    and e: "\<And>i. entities ?m i = (if unat i < 2 ^ 32 then Some (Entity i) else None)"
    by auto
  from e[of 0] have "entities ?m 0 = Some (Entity 0)" by simp
  then have "\<not> fresh_ids [CreateEntity] ?m"
    using n p by (auto simp: createEntity_result Let_def)
  then show ?thesis by (simp only: fresh_ids_append) simp
qed

text \<open>
  C9, as amended. For every finite sequence of \<open>createEntity\<close> and
  \<open>destroyEntity\<close> calls on a new manager: no two simultaneously live
  entities ever share an ID (every \<open>createEntity\<close> hands out an ID that no
  live entity has at that moment) exactly when the sequence advances the
  counter \<open>nextID\<close> at most \<open>2 ^ 32\<close> times, calls that reuse an ID of the
  pool not counted; the IDs of the reuse pool are always pairwise distinct and
  none of them is the ID of a live entity; and as long as the counter has
  advanced fewer than \<open>2 ^ 32\<close> times, every ID of the pool and of a live
  entity is below \<open>nextID\<close>, that is, distinct from every counter value not
  issued yet.
\<close>

theorem live_ids_unique_iff_counter_not_wrapped:
  "(fresh_ids cs (ECSManager_new :: 'c ECSManager)
      \<longleftrightarrow> advances cs (ECSManager_new :: 'c ECSManager) \<le> 2 ^ 32)
   \<and> distinct (reusableIDs (run cs (ECSManager_new :: 'c ECSManager)))
   \<and> (\<forall>i \<in> set (reusableIDs (run cs (ECSManager_new :: 'c ECSManager))).
         entities (run cs (ECSManager_new :: 'c ECSManager)) i = None)
   \<and> (advances cs (ECSManager_new :: 'c ECSManager) < 2 ^ 32 \<longrightarrow>
        (\<forall>i. i \<in> set (reusableIDs (run cs (ECSManager_new :: 'c ECSManager)))
               \<or> entities (run cs (ECSManager_new :: 'c ECSManager)) i \<noteq> None
             \<longrightarrow> i < nextID (run cs (ECSManager_new :: 'c ECSManager))))"
proof -
  let ?new = "ECSManager_new :: 'c ECSManager"
  let ?m = "run cs ?new"
  have fresh: "fresh_ids cs ?new \<longleftrightarrow> advances cs ?new \<le> 2 ^ 32"
  proof
    assume f: "fresh_ids cs ?new"
    show "advances cs ?new \<le> 2 ^ 32"
    proof (rule ccontr)
      assume "\<not> advances cs ?new \<le> 2 ^ 32"
      then have "2 ^ 32 < 0 + advances cs ?new" by simp
      from not_fresh_beyond_wrap[OF ids_inv_new ids_all_held_new this] f
      show False by simp
    qed
  next
    assume "advances cs ?new \<le> 2 ^ 32"
    with ids_inv_run[OF ids_inv_new, of cs, where 'a='c]
    show "fresh_ids cs ?new" by simp
  qed
  have "distinct (reusableIDs ?new)" "\<forall>i \<in> set (reusableIDs ?new). entities ?new i = None"
    by (simp_all add: ECSManager_new_def)
  from pool_run[OF this, of cs]
  have pool: "distinct (reusableIDs ?m)" "\<forall>i \<in> set (reusableIDs ?m). entities ?m i = None"
    by blast+
  have below: "i < nextID ?m"
    if lt: "advances cs ?new < 2 ^ 32"
      and i: "i \<in> set (reusableIDs ?m) \<or> entities ?m i \<noteq> None"
    for i
  proof -
    from lt ids_inv_run[OF ids_inv_new, of cs, where 'a='c]
    have inv: "ids_inv (advances cs ?new) ?m" by simp
    then have c: "nextID ?m = word_of_nat (advances cs ?new)"
      and b: "\<And>i. i \<in> set (reusableIDs ?m) \<or> entities ?m i \<noteq> None
                 \<Longrightarrow> unat i < advances cs ?new"
      unfolding ids_inv_def by blast+
    from lt have "unat (nextID ?m) = advances cs ?new" unfolding c by (rule unat_of_nat32)
    with b[OF i] show ?thesis by (simp add: word_less_nat_alt)
  qed
  from fresh pool below show ?thesis by blast
qed

theorem live_ids_unique_iff_counter_not_wrapped_witness:
  "advances [CreateEntity, DestroyEntity 0, CreateEntity, CreateEntity, DestroyEntity 0]
       (ECSManager_new :: unit ECSManager) = 2
   \<and> fresh_ids [CreateEntity, DestroyEntity 0, CreateEntity, CreateEntity, DestroyEntity 0]
       (ECSManager_new :: unit ECSManager)
   \<and> reusableIDs (run [CreateEntity, DestroyEntity 0, CreateEntity, CreateEntity, DestroyEntity 0]
                      (ECSManager_new :: unit ECSManager)) = [0]
   \<and> entities (run [CreateEntity, DestroyEntity 0, CreateEntity, CreateEntity, DestroyEntity 0]
                      (ECSManager_new :: unit ECSManager)) 0 = None
   \<and> nextID (run [CreateEntity, DestroyEntity 0, CreateEntity, CreateEntity, DestroyEntity 0]
                      (ECSManager_new :: unit ECSManager)) = 2"
proof -
  let ?cs = "[CreateEntity, DestroyEntity 0, CreateEntity, CreateEntity, DestroyEntity 0]"
  let ?new = "ECSManager_new :: unit ECSManager"
  let ?m = "run ?cs ?new"
  note defs = createEntity_def generateEntityID_def destroyEntity_def
    ComponentManager_removeEntity_def std_map_insert_def ECSManager_new_def Let_def
  have a: "advances ?cs ?new = 2" by (simp add: defs)
  have r: "reusableIDs ?m = [0]" and n: "nextID ?m = 2" by (simp_all add: defs)
  note inst = live_ids_unique_iff_counter_not_wrapped[of ?cs, where 'c=unit]
  from inst[THEN conjunct1] a have f: "fresh_ids ?cs ?new" by simp
  from inst[THEN conjunct2, THEN conjunct2, THEN conjunct1] r
  have e: "entities ?m 0 = None" by simp
  from a f r e n show ?thesis by (intro conjI)
qed

section \<open>Properties of addComponent on the manager\<close>

lemma map_of_insort_key_fresh:
  "map_of xs k = None \<Longrightarrow> map_of (insort_key fst (k, v) xs) = (map_of xs)(k \<mapsto> v)"
  by (induction xs) (auto simp: fun_eq_iff)

lemma getComponentVector_result:
  assumes "ComponentManager_getComponentVector tk cm = (r, cm')"
  shows "r = Inr (case map_of (componentVectors cm) tk of
                    None \<Rightarrow> ComponentVector_empty | Some cv \<Rightarrow> cv)"
    and "map_of (componentVectors cm') =
           (case map_of (componentVectors cm) tk of
              None \<Rightarrow> (map_of (componentVectors cm))(tk \<mapsto> ComponentVector_empty)
            | Some cv \<Rightarrow> map_of (componentVectors cm))"
  using assms
  by (cases "map_of (componentVectors cm) tk";
      auto simp: ComponentManager_getComponentVector_def Let_def map_of_insort_key_fresh)+

lemma ComponentManager_addComponent_result:
  assumes "ComponentManager_addComponent tk entityID c cm = (r, cm')"
  shows "r = Inr ()"
    and "map_of (componentVectors cm') =
           (map_of (componentVectors cm))(tk \<mapsto>
              snd (ComponentVector_addComponent entityID c
                    (case map_of (componentVectors cm) tk of
                       None \<Rightarrow> ComponentVector_empty | Some cv \<Rightarrow> cv)))"
proof -
  obtain r0 cm0 where g: "ComponentManager_getComponentVector tk cm = (r0, cm0)"
    by (cases "ComponentManager_getComponentVector tk cm")
  note gr = getComponentVector_result[OF g]
  from assms g gr show "r = Inr ()"
    by (auto simp: ComponentManager_addComponent_def ComponentVector_addComponent_def Let_def)
  from assms g gr show "map_of (componentVectors cm') =
           (map_of (componentVectors cm))(tk \<mapsto>
              snd (ComponentVector_addComponent entityID c
                    (case map_of (componentVectors cm) tk of
                       None \<Rightarrow> ComponentVector_empty | Some cv \<Rightarrow> cv)))"
    by (auto simp: ComponentManager_addComponent_def update_conv'
             split: prod.splits option.splits)
qed

lemma ECSManager_addComponent_entities:
  "ECSManager_addComponent T entityID c (m\<lparr>entities := E\<rparr>) =
     (case ECSManager_addComponent T entityID c m of (r, m') \<Rightarrow> (r, m'\<lparr>entities := E\<rparr>))"
  by (simp add: ECSManager_addComponent_def split: prod.splits)

text \<open>
  C8. The claim asks that \<open>addComponent<T>(id, v)\<close> fails with \<open>InvalidType\<close>
  when \<open>T\<close> is not a Component and fails when \<open>id\<close> is not live. On the code
  neither call fails: on a new manager, which has no live entity, a value of
  a type that does not derive from \<open>Component\<close> is dropped and the call returns
  normally with the manager unchanged, and a value of a Component type is
  stored for entity 0 although entity 0 is not live.
\<close>

theorem addComponent_invalid_type_or_dead_id_returns_normally:
  "ECSManager_addComponent \<lparr>type_name = 7, derives_Component = False\<rparr> 0 (1::nat) ECSManager_new
     = (Inr (), ECSManager_new)
   \<and> entities (ECSManager_new :: nat ECSManager) 0 = None
   \<and> ECSManager_addComponent \<lparr>type_name = 7, derives_Component = True\<rparr> 0 (1::nat) ECSManager_new
     = (Inr (),
        ECSManager_new\<lparr>manager_components :=
          \<lparr>componentVectors = [(7, \<lparr>indexes = [0 \<mapsto> 0], components = [1]\<rparr>)]\<rparr>\<rparr>)"
  by (simp add: ECSManager_addComponent_def ComponentManager_addComponent_def
      ComponentManager_getComponentVector_def ComponentVector_addComponent_def
      ComponentVector_empty_def std_map_insert_def ECSManager_new_def Let_def)

text \<open>
  C8, as amended. \<open>addComponent<T>(id, v)\<close> forwards the value to the store
  for \<open>T\<close> exactly when \<open>T\<close> derives from \<open>Component\<close>, whether or not \<open>id\<close>
  is live. When \<open>T\<close> does not derive from \<open>Component\<close> the call reports no
  error and leaves the manager unchanged. When it does, the call returns
  normally, the store for \<open>T\<close> (created empty if there was none) becomes what
  the store's own \<open>addComponent(id, v)\<close> makes of it, every other store and
  every other field of the manager stay as they were; and the outcome does not
  depend on the entity registry.
\<close>

theorem addComponent_forwards_iff_Component_ignoring_liveness:
  "(\<not> derives_Component T \<longrightarrow> ECSManager_addComponent T entityID c m = (Inr (), m))
   \<and> (derives_Component T \<longrightarrow>
        (\<exists>cm'. ECSManager_addComponent T entityID c m = (Inr (), m\<lparr>manager_components := cm'\<rparr>)
           \<and> map_of (componentVectors cm') =
               (map_of (componentVectors (manager_components m)))(type_name T \<mapsto>
                  snd (ComponentVector_addComponent entityID c
                        (case map_of (componentVectors (manager_components m)) (type_name T) of
                           None \<Rightarrow> ComponentVector_empty | Some cv \<Rightarrow> cv)))))
   \<and> ECSManager_addComponent T entityID c (m\<lparr>entities := E\<rparr>) =
        (case ECSManager_addComponent T entityID c m of (r, m') \<Rightarrow> (r, m'\<lparr>entities := E\<rparr>))"
proof -
  have 1: "\<not> derives_Component T \<longrightarrow> ECSManager_addComponent T entityID c m = (Inr (), m)"
    by (simp add: ECSManager_addComponent_def)
  have 2: "derives_Component T \<longrightarrow>
        (\<exists>cm'. ECSManager_addComponent T entityID c m = (Inr (), m\<lparr>manager_components := cm'\<rparr>)
           \<and> map_of (componentVectors cm') =
               (map_of (componentVectors (manager_components m)))(type_name T \<mapsto>
                  snd (ComponentVector_addComponent entityID c
                        (case map_of (componentVectors (manager_components m)) (type_name T) of
                           None \<Rightarrow> ComponentVector_empty | Some cv \<Rightarrow> cv))))"
  proof
    assume T: "derives_Component T"
    obtain r cm' where
      a: "ComponentManager_addComponent (type_name T) entityID c (manager_components m) = (r, cm')"
      by (cases "ComponentManager_addComponent (type_name T) entityID c (manager_components m)")
    note ar = ComponentManager_addComponent_result[OF a]
    from T a ar(1)
    have "ECSManager_addComponent T entityID c m = (Inr (), m\<lparr>manager_components := cm'\<rparr>)"
      by (simp add: ECSManager_addComponent_def)
    with ar(2) show "\<exists>cm'. ECSManager_addComponent T entityID c m
                               = (Inr (), m\<lparr>manager_components := cm'\<rparr>)
           \<and> map_of (componentVectors cm') =
               (map_of (componentVectors (manager_components m)))(type_name T \<mapsto>
                  snd (ComponentVector_addComponent entityID c
                        (case map_of (componentVectors (manager_components m)) (type_name T) of
                           None \<Rightarrow> ComponentVector_empty | Some cv \<Rightarrow> cv)))"
      by blast
  qed
  from 1 2 ECSManager_addComponent_entities show ?thesis by (intro conjI)
qed

theorem addComponent_forwards_iff_Component_ignoring_liveness_witness:
  "ECSManager_addComponent \<lparr>type_name = 3, derives_Component = False\<rparr> 5 (9::nat)
       (snd (createEntity ECSManager_new))
     = (Inr (), snd (createEntity ECSManager_new))
   \<and> fst (ECSManager_addComponent \<lparr>type_name = 3, derives_Component = True\<rparr> 5 (9::nat)
       (snd (createEntity ECSManager_new))) = Inr ()"
proof -
  let ?m = "snd (createEntity (ECSManager_new :: nat ECSManager))"
  from addComponent_forwards_iff_Component_ignoring_liveness
         [of "\<lparr>type_name = 3, derives_Component = False\<rparr>" 5 9 ?m]
  have 1: "ECSManager_addComponent \<lparr>type_name = 3, derives_Component = False\<rparr> 5 9 ?m
             = (Inr (), ?m)"
    by simp
  from addComponent_forwards_iff_Component_ignoring_liveness
         [of "\<lparr>type_name = 3, derives_Component = True\<rparr>" 5 9 ?m]
  obtain cm' where
    "ECSManager_addComponent \<lparr>type_name = 3, derives_Component = True\<rparr> 5 9 ?m
       = (Inr (), ?m\<lparr>manager_components := cm'\<rparr>)"
    by auto
  then have 2: "fst (ECSManager_addComponent \<lparr>type_name = 3, derives_Component = True\<rparr> 5 9 ?m)
                  = Inr ()"
    by simp
  from 1 2 show ?thesis by (rule conjI)
qed

section \<open>Registration of systems\<close>

lemma registerSystem_plain:
  assumes "derives_System T" "\<not> derives_RenderSystem T"
  shows "registerSystem T m =
           m\<lparr>systems := systems m @ [objects m],
             objects := Suc (objects m),
             trace := trace m @
               [Construct (objects m) (DerivedClass (sys_class T)),
                Call_init (Instance (objects m)) (DerivedClass (sys_class T))]\<rparr>"
  using assms by (simp add: registerSystem_def Let_def)

lemma registerSystem_render:
  assumes "derives_System T" "derives_RenderSystem T"
  shows "registerSystem T m =
           m\<lparr>rsystems := rsystems m @ [objects m],
             systems := systems m @ [Suc (objects m)],
             objects := Suc (Suc (objects m)),
             trace := trace m @
               [Construct (objects m) (DerivedClass (sys_class T)),
                Construct (Suc (objects m)) (DerivedClass (sys_class T)),
                Call_init (Instance (Suc (objects m))) (DerivedClass (sys_class T))]\<rparr>"
  using assms by (simp add: registerSystem_def Let_def)

text \<open>
  C2. The claim asks that \<open>registerSystem<T>\<close> constructs one instance of
  \<open>T\<close>, appends it to exactly one of the two lists, calls \<open>init\<close> once on the
  registered instance, and that a following \<open>render()\<close> calls the render hook
  of the system once. On the code, registering a class that derives from
  \<open>RenderSystem\<close> on a new manager constructs two instances of the class
  (0 and 1), appends a copy of the first to \<open>rsystems\<close> and a copy of the
  second to \<open>systems\<close>, so the system is in both lists, and calls \<open>init\<close>
  once, on the local instance 1 and on neither stored element. The
  \<open>render()\<close> that follows makes one call, the render hook of the element of
  \<open>rsystems\<close>, which is an object of class \<open>RenderSystem\<close> with the empty
  hook of the base class: the render hook of the registered class does not
  run.
\<close>

theorem registerSystem_render_system_in_both_lists:
  "registerSystem \<lparr>sys_class = 5, derives_System = True, derives_RenderSystem = True\<rparr>
       (ECSManager_new :: unit ECSManager)
     = ECSManager_new\<lparr>systems := [1], rsystems := [0], objects := 2,
          trace := [Construct 0 (DerivedClass 5), Construct 1 (DerivedClass 5),
                    Call_init (Instance 1) (DerivedClass 5)]\<rparr>
   \<and> trace (ECSManager_render
        (registerSystem \<lparr>sys_class = 5, derives_System = True, derives_RenderSystem = True\<rparr>
           (ECSManager_new :: unit ECSManager)))
     = [Construct 0 (DerivedClass 5), Construct 1 (DerivedClass 5),
        Call_init (Instance 1) (DerivedClass 5), Call_render (CopyOf 0) RenderSystemClass]"
  by (simp add: registerSystem_def ECSManager_new_def ECSManager_render_def Let_def)

end
